theory Spec2Isabelle
  imports Main "HOL-Library.Word"
begin

section \<open>Data model of the block assembler (miner.cpp)\<close>

text \<open>
  Quantities of type \<open>int64_t\<close>, \<open>CAmount\<close>, \<open>uint64_t\<close> and \<open>size_t\<close> are modelled as
  unbounded \<open>int\<close> (signed ones) and \<open>nat\<close> (unsigned ones); none of them comes near
  \<open>2 ^ 63\<close> for a pool of transactions that fits in memory. The 32-bit timestamps
  \<open>nTime\<close> of a transaction and of a block header are \<open>32 word\<close>, and every implicit
  narrowing of an \<open>int64_t\<close> to such a field is written \<open>word_of_int\<close>.

  A mempool iterator (\<open>CTxMemPool::txiter\<close>) is modelled by the hash of the transaction
  it designates; the container \<open>setEntries\<close>, a \<open>std::set\<close> ordered by that hash, is a
  list kept sorted and free of duplicates.
\<close>

type_synonym uint256 = nat
type_synonym txiter = uint256
type_synonym CAmount = int
type_synonym uint32 = "32 word"

datatype script_elem = ScriptNum int | OP_0 | ScriptData "nat list"
type_synonym CScript = "script_elem list"

record CTxOut =
  nValue :: CAmount
  scriptPubKey :: CScript

record CTxIn =
  prevout_IsNull :: bool
  scriptSig :: CScript

record CTransaction =
  hash :: uint256
  nTime :: uint32
  vin :: "CTxIn list"
  vout :: "CTxOut list"
  nLockTime :: nat
  wit_IsNull :: bool

record CBlockIndex =
  nHeight_idx :: int
  GetMedianTimePast :: int
  GetBlockTime_idx :: int
  GetBlockHash :: uint256

record CBlock =
  nVersion :: int
  hashPrevBlock :: uint256
  hashMerkleRoot :: uint256
  nTime_blk :: uint32
  nBits :: nat
  nNonce :: nat
  vtx :: "CTransaction list"
  vchBlockSig :: "nat list"

section \<open>UpdateTime\<close>

text \<open>
  \<open>UpdateTime\<close> reads the header's time into an \<open>int64_t\<close>, takes the maximum of the
  earliest time the chain allows and the adjusted clock, stores it when it is newer and
  returns the difference. \<open>BLOCK_LIMITER_TIME\<close> (a consensus constant) and the value of
  \<open>GetAdjustedTime()\<close> are arguments.
\<close>

definition UpdateTime :: "int \<Rightarrow> int \<Rightarrow> CBlock \<Rightarrow> CBlockIndex \<Rightarrow> int \<times> CBlock" where
  "UpdateTime BLOCK_LIMITER_TIME adjustedTime pblock pindexPrev =
     (let nOldTime = uint (nTime_blk pblock);
          nNewTime = max (GetMedianTimePast pindexPrev + BLOCK_LIMITER_TIME + 1) adjustedTime;
          pblock' = (if nOldTime < nNewTime
                     then pblock\<lparr>nTime_blk := word_of_int nNewTime\<rparr> else pblock)
      in (nNewTime - nOldTime, pblock'))"

section \<open>Mempool, environment and assembler state\<close>

record CTxMemPoolEntry =
  GetTx :: CTransaction
  GetFee :: CAmount
  GetModifiedFee :: CAmount
  GetTxSize :: nat
  GetTxWeight :: nat
  GetSigOpCost :: int
  GetCountWithAncestors :: nat
  GetSizeWithAncestors :: nat
  GetModFeesWithAncestors :: CAmount
  GetSigOpCostWithAncestors :: int

text \<open>
  The mempool (txmempool.cpp) is read only. \<open>mapTx\<close> lists the iterators of the
  primary index in its order, \<open>ancestor_score\<close> those of the index by ancestor fee rate;
  \<open>deref\<close> is the entry an iterator designates. The four traversal functions are the
  mempool's own; \<open>CalculateMemPoolAncestors\<close> is the call with no limits, whose boolean
  result the assembler ignores, and \<open>GetPriority\<close> is the priority at a height after
  \<open>ApplyDeltas\<close>. Priorities are \<open>double\<close>s in the source; the model leaves their type
  \<open>'p\<close> open and takes the comparisons made on them as parameters.
\<close>

record 'p CTxMemPool =
  mapTx :: "txiter list"
  ancestor_score :: "txiter list"
  deref :: "txiter \<Rightarrow> CTxMemPoolEntry"
  GetMemPoolParents :: "txiter \<Rightarrow> txiter list"
  GetMemPoolChildren :: "txiter \<Rightarrow> txiter list"
  CalculateDescendants :: "txiter \<Rightarrow> txiter list"
  CalculateMemPoolAncestors :: "txiter \<Rightarrow> txiter list"
  GetPriority :: "txiter \<Rightarrow> int \<Rightarrow> 'p"

record CTxMemPoolModifiedEntry =
  iter :: txiter
  nSizeWithAncestors :: nat
  nModFeesWithAncestors :: CAmount
  nSigOpCostWithAncestors :: int

record CBlockTemplate =
  block :: CBlock
  vTxFees :: "CAmount list"
  vTxSigOpsCost :: "int list"
  vchCoinbaseCommitment :: "nat list"

text \<open>
  Everything else the assembler calls but does not define: consensus constants, command
  line arguments, the chain, validation, policy, and the comparators declared in miner.h
  and txmempool.h. \<open>GetAdjustedTime k\<close> is what the \<open>k\<close>-th reading of the adjusted clock
  returns during one call of \<open>CreateNewBlock\<close>. \<open>new_CBlockTemplate_ok\<close> tells
  whether the allocation made by \<open>new CBlockTemplate()\<close> succeeds.
\<close>

record 'p Env =
  MAX_BLOCK_SIGOPS_COST :: int
  BLOCK_LIMITER_TIME :: int
  fLockTimeMedianTimePast :: bool
  blockprioritysize :: nat
  MineBlocksOnDemand :: bool
  blockversion :: "int \<Rightarrow> int"
  GetAdjustedTime :: "nat \<Rightarrow> int"
  new_CBlockTemplate_ok :: bool
  CTransaction_default :: CTransaction
  ComputeBlockVersion :: "CBlockIndex \<Rightarrow> int"
  IsWitnessEnabled :: "CBlockIndex \<Rightarrow> bool"
  GetNextWorkRequired :: "CBlockIndex \<Rightarrow> bool \<Rightarrow> nat"
  GetBlockSubsidy :: "int \<Rightarrow> CAmount"
  GetProofOfStakeReward :: "int \<Rightarrow> CAmount"
  PastDrift :: "int \<Rightarrow> int"
  GenerateCoinbaseCommitment :: "CBlock \<Rightarrow> CBlockIndex \<Rightarrow> nat list"
  GetLegacySigOpCount :: "CTransaction \<Rightarrow> int"
  IsFinalTx :: "CTransaction \<Rightarrow> int \<Rightarrow> int \<Rightarrow> bool"
  GetSerializeSize :: "CTransaction \<Rightarrow> nat"
  SerializeHash :: "CTransaction \<Rightarrow> uint256"
  minRelayTxFee_GetFee :: "nat \<Rightarrow> CAmount"
  AllowFree :: "'p \<Rightarrow> bool"
  CompareModifiedEntry :: "CTxMemPoolModifiedEntry \<Rightarrow> CTxMemPoolModifiedEntry \<Rightarrow> bool"
  pricomparer :: "'p \<times> txiter \<Rightarrow> 'p \<times> txiter \<Rightarrow> bool"

record BlockAssembler =
  pblocktemplate :: CBlockTemplate
  nBlockMaxWeight :: nat
  nBlockMaxSize :: nat
  fNeedSizeAccounting :: bool
  nBlockWeight :: nat
  nBlockSize :: nat
  nBlockTx :: nat
  nBlockSigOpsCost :: int
  nFees :: CAmount
  inBlock :: "txiter list"
  nHeight :: int
  nLockTimeCutoff :: int
  lastFewTxs :: nat
  blockFinished :: bool
  fIncludeWitness :: bool

definition WITNESS_SCALE_FACTOR :: nat where
  "WITNESS_SCALE_FACTOR = 4"

text \<open>
  \<open>std::set::insert\<close> on a \<open>setEntries\<close>; \<open>count\<close> is membership. A \<open>setEntries\<close> that
  a mempool function hands over is read through \<open>setEntries_of\<close>, which puts its elements
  in the order of the container.
\<close>

definition setEntries_of :: "txiter list \<Rightarrow> txiter list" where
  "setEntries_of xs = sort (remdups xs)"

definition set_insert :: "txiter \<Rightarrow> txiter list \<Rightarrow> txiter list" where
  "set_insert x xs = (if x \<in> set xs then xs else insort x xs)"

section \<open>Construction and reset\<close>

text \<open>
  The constructor. \<open>blockmaxweight\<close> and \<open>blockmaxsize\<close> are the two command line
  arguments when given, as \<open>GetArg\<close> returns them (\<open>int64_t\<close>); the four constants come
  from consensus.h and policy.h. \<open>nBlockMaxWeight\<close> and \<open>nBlockMaxSize\<close> are
  \<open>unsigned int\<close>: a value stored in them, and the product
  \<open>nBlockMaxSize * WITNESS_SCALE_FACTOR\<close>, is taken modulo \<open>2 ^ 32\<close>.
\<close>

definition to_unsigned_int :: "int \<Rightarrow> nat" where
  "to_unsigned_int x = nat (x mod 2 ^ 32)"

definition BlockAssembler_limits ::
  "nat \<Rightarrow> nat \<Rightarrow> nat \<Rightarrow> nat \<Rightarrow> int option \<Rightarrow> int option \<Rightarrow> nat \<times> nat \<times> bool" where
  "BlockAssembler_limits DEFAULT_BLOCK_MAX_WEIGHT DEFAULT_BLOCK_MAX_SIZE MAX_BLOCK_WEIGHT
       MAX_BLOCK_SERIALIZED_SIZE blockmaxweight blockmaxsize =
     (let (w1, s1, fWeightSet) =
            (case blockmaxweight of
               None \<Rightarrow> (DEFAULT_BLOCK_MAX_WEIGHT, DEFAULT_BLOCK_MAX_SIZE, False)
             | Some w \<Rightarrow> (to_unsigned_int w, MAX_BLOCK_SERIALIZED_SIZE, True));
          (w2, s2) =
            (case blockmaxsize of
               None \<Rightarrow> (w1, s1)
             | Some s \<Rightarrow>
                 (if \<not> fWeightSet
                  then ((to_unsigned_int s * WITNESS_SCALE_FACTOR) mod 2 ^ 32, to_unsigned_int s)
                  else (w1, to_unsigned_int s)));
          w3 = max 4000 (min (MAX_BLOCK_WEIGHT - 4000) w2);
          s3 = max 1000 (min (MAX_BLOCK_SERIALIZED_SIZE - 1000) s2)
      in (w3, s3, s3 < MAX_BLOCK_SERIALIZED_SIZE - 1000))"

definition CBlock_null :: CBlock where
  "CBlock_null = \<lparr>nVersion = 0, hashPrevBlock = 0, hashMerkleRoot = 0, nTime_blk = 0,
     nBits = 0, nNonce = 0, vtx = [], vchBlockSig = []\<rparr>"

definition CBlockTemplate_new :: CBlockTemplate where
  "CBlockTemplate_new = \<lparr>block = CBlock_null, vTxFees = [], vTxSigOpsCost = [],
     vchCoinbaseCommitment = []\<rparr>"

definition BlockAssembler_ctor ::
  "nat \<Rightarrow> nat \<Rightarrow> nat \<Rightarrow> nat \<Rightarrow> int option \<Rightarrow> int option \<Rightarrow> BlockAssembler" where
  "BlockAssembler_ctor dw ds mw ms blockmaxweight blockmaxsize =
     (let (w, s, f) = BlockAssembler_limits dw ds mw ms blockmaxweight blockmaxsize
      in \<lparr>pblocktemplate = CBlockTemplate_new, nBlockMaxWeight = w, nBlockMaxSize = s,
          fNeedSizeAccounting = f, nBlockWeight = 0, nBlockSize = 0, nBlockTx = 0,
          nBlockSigOpsCost = 0, nFees = 0, inBlock = [], nHeight = 0, nLockTimeCutoff = 0,
          lastFewTxs = 0, blockFinished = False, fIncludeWitness = False\<rparr>)"

definition resetBlock :: "BlockAssembler \<Rightarrow> BlockAssembler" where
  "resetBlock a = a\<lparr>inBlock := [], nBlockSize := 1000, nBlockWeight := 4000,
     nBlockSigOpsCost := 400, fIncludeWitness := False, nBlockTx := 0, nFees := 0,
     lastFewTxs := 0, blockFinished := False\<rparr>"

section \<open>Fit predicates\<close>

text \<open>
  The three tests are member functions that may write to the assembler, so each returns
  its verdict together with the assembler it leaves behind.
\<close>

definition TestPackage :: "'p Env \<Rightarrow> BlockAssembler \<Rightarrow> nat \<Rightarrow> int \<Rightarrow> bool \<times> BlockAssembler" where
  "TestPackage env a packageSize packageSigOpsCost =
     (if nBlockWeight a + WITNESS_SCALE_FACTOR * packageSize \<ge> nBlockMaxWeight a
      then (False, a)
      else if nBlockSigOpsCost a + packageSigOpsCost \<ge> MAX_BLOCK_SIGOPS_COST env
      then (False, a)
      else (True, a))"

text \<open>
  The loop of \<open>TestPackageTransactions\<close> over the package, with the local
  \<open>nPotentialBlockSize\<close> as accumulator.
\<close>

fun TestPackageTransactions_loop ::
  "'p Env \<Rightarrow> 'p CTxMemPool \<Rightarrow> BlockAssembler \<Rightarrow> nat \<Rightarrow> txiter list \<Rightarrow> bool \<times> BlockAssembler" where
  "TestPackageTransactions_loop env mp a nPotentialBlockSize [] = (True, a)"
| "TestPackageTransactions_loop env mp a nPotentialBlockSize (it # package) =
     (let tx = GetTx (deref mp it) in
      if \<not> IsFinalTx env tx (nHeight a) (nLockTimeCutoff a) then (False, a)
      else if \<not> fIncludeWitness a \<and> \<not> wit_IsNull tx then (False, a)
      else if fNeedSizeAccounting a then
        (let nTxSize = GetSerializeSize env tx in
         if nPotentialBlockSize + nTxSize \<ge> nBlockMaxSize a then (False, a)
         else TestPackageTransactions_loop env mp a (nPotentialBlockSize + nTxSize) package)
      else TestPackageTransactions_loop env mp a nPotentialBlockSize package)"

definition TestPackageTransactions ::
  "'p Env \<Rightarrow> 'p CTxMemPool \<Rightarrow> BlockAssembler \<Rightarrow> txiter list \<Rightarrow> bool \<times> BlockAssembler" where
  "TestPackageTransactions env mp a package =
     TestPackageTransactions_loop env mp a (nBlockSize a) package"

text \<open>
  \<open>nBlockMaxWeight\<close> and \<open>nBlockMaxSize\<close> are \<open>unsigned int\<close>, so the margins
  \<open>nBlockMaxWeight - 400\<close> and the like are computed modulo \<open>2 ^ 32\<close>.
\<close>

definition sub_u32 :: "nat \<Rightarrow> nat \<Rightarrow> nat" where
  "sub_u32 x y = nat ((int x - int y) mod 2 ^ 32)"

definition TestForBlock :: "'p Env \<Rightarrow> 'p CTxMemPool \<Rightarrow> BlockAssembler \<Rightarrow> txiter \<Rightarrow> bool \<times> BlockAssembler" where
  "TestForBlock env mp a it =
     (let e = deref mp it in
      if nBlockWeight a + GetTxWeight e \<ge> nBlockMaxWeight a then
        (if nBlockWeight a > sub_u32 (nBlockMaxWeight a) 400 \<or> lastFewTxs a > 50
         then (False, a\<lparr>blockFinished := True\<rparr>)
         else if nBlockWeight a > sub_u32 (nBlockMaxWeight a) 4000
         then (False, a\<lparr>lastFewTxs := lastFewTxs a + 1\<rparr>)
         else (False, a))
      else if fNeedSizeAccounting a
              \<and> nBlockSize a + GetSerializeSize env (GetTx e) \<ge> nBlockMaxSize a then
        (if nBlockSize a > sub_u32 (nBlockMaxSize a) 100 \<or> lastFewTxs a > 50
         then (False, a\<lparr>blockFinished := True\<rparr>)
         else if nBlockSize a > sub_u32 (nBlockMaxSize a) 1000
         then (False, a\<lparr>lastFewTxs := lastFewTxs a + 1\<rparr>)
         else (False, a))
      else if nBlockSigOpsCost a + GetSigOpCost e \<ge> MAX_BLOCK_SIGOPS_COST env then
        (if nBlockSigOpsCost a > MAX_BLOCK_SIGOPS_COST env - 8
         then (False, a\<lparr>blockFinished := True\<rparr>)
         else (False, a))
      else if \<not> IsFinalTx env (GetTx e) (nHeight a) (nLockTimeCutoff a) then (False, a)
      else (True, a))"

section \<open>AddToBlock\<close>

text \<open>The logging under \<open>-printpriority\<close> changes nothing and is left out.\<close>

definition AddToBlock :: "'p Env \<Rightarrow> 'p CTxMemPool \<Rightarrow> BlockAssembler \<Rightarrow> txiter \<Rightarrow> BlockAssembler" where
  "AddToBlock env mp a it =
     (let e = deref mp it;
          t = pblocktemplate a;
          t' = t\<lparr>block := (block t)\<lparr>vtx := vtx (block t) @ [GetTx e]\<rparr>,
                 vTxFees := vTxFees t @ [GetFee e],
                 vTxSigOpsCost := vTxSigOpsCost t @ [GetSigOpCost e]\<rparr>
      in a\<lparr>pblocktemplate := t',
           nBlockSize := (if fNeedSizeAccounting a
                          then nBlockSize a + GetSerializeSize env (GetTx e)
                          else nBlockSize a),
           nBlockWeight := nBlockWeight a + GetTxWeight e,
           nBlockTx := nBlockTx a + 1,
           nBlockSigOpsCost := nBlockSigOpsCost a + GetSigOpCost e,
           nFees := nFees a + GetFee e,
           inBlock := set_insert it (inBlock a)\<rparr>)"

section \<open>The modified set\<close>

text \<open>
  \<open>mapModifiedTx\<close> is a multi-index container of modified entries, unique by \<open>iter\<close>
  and ordered by modified ancestor fee rate. It is modelled as a list without an order
  of its own: \<open>mm_find\<close>, \<open>mm_insert\<close>, \<open>mm_modify\<close> and \<open>mm_erase\<close> work by key, and
  \<open>mm_begin\<close> is the first element of the index by score, the least entry under
  \<open>CompareModifiedEntry\<close> (\<open>None\<close> for \<open>end()\<close>).
\<close>

definition mm_find :: "txiter \<Rightarrow> CTxMemPoolModifiedEntry list \<Rightarrow> CTxMemPoolModifiedEntry option" where
  "mm_find k mm = find (\<lambda>m. iter m = k) mm"

definition mm_insert :: "CTxMemPoolModifiedEntry \<Rightarrow> CTxMemPoolModifiedEntry list \<Rightarrow> CTxMemPoolModifiedEntry list" where
  "mm_insert m mm = (if mm_find (iter m) mm = None then mm @ [m] else mm)"

definition mm_modify ::
  "txiter \<Rightarrow> (CTxMemPoolModifiedEntry \<Rightarrow> CTxMemPoolModifiedEntry) \<Rightarrow> CTxMemPoolModifiedEntry list \<Rightarrow> CTxMemPoolModifiedEntry list" where
  "mm_modify k f mm = map (\<lambda>m. if iter m = k then f m else m) mm"

definition mm_erase :: "txiter \<Rightarrow> CTxMemPoolModifiedEntry list \<Rightarrow> CTxMemPoolModifiedEntry list" where
  "mm_erase k mm = filter (\<lambda>m. iter m \<noteq> k) mm"

fun mm_begin :: "'p Env \<Rightarrow> CTxMemPoolModifiedEntry list \<Rightarrow> CTxMemPoolModifiedEntry option" where
  "mm_begin env [] = None"
| "mm_begin env (m # mm) =
     Some (fold (\<lambda>y b. if CompareModifiedEntry env y b then y else b) mm m)"

text \<open>
  Modelled from the spec: the constructor \<open>CTxMemPoolModifiedEntry(entry)\<close> and the
  functor \<open>update_for_parent_inclusion\<close> are declared in miner.h, which is not among the
  sources. The spec has the fields of a modified entry "start from the base entry" and be
  "decremented by each committed ancestor's own contribution"; the fee taken is the
  modified fee, as in the branch of \<open>UpdatePackagesForAdded\<close> that inserts.
\<close>

definition CTxMemPoolModifiedEntry_of :: "'p CTxMemPool \<Rightarrow> txiter \<Rightarrow> CTxMemPoolModifiedEntry" where
  "CTxMemPoolModifiedEntry_of mp it =
     \<lparr>iter = it,
      nSizeWithAncestors = GetSizeWithAncestors (deref mp it),
      nModFeesWithAncestors = GetModFeesWithAncestors (deref mp it),
      nSigOpCostWithAncestors = GetSigOpCostWithAncestors (deref mp it)\<rparr>"

definition update_for_parent_inclusion :: "CTxMemPoolEntry \<Rightarrow> CTxMemPoolModifiedEntry \<Rightarrow> CTxMemPoolModifiedEntry" where
  "update_for_parent_inclusion parent e =
     e\<lparr>nModFeesWithAncestors := nModFeesWithAncestors e - GetModifiedFee parent,
       nSizeWithAncestors := nSizeWithAncestors e - GetTxSize parent,
       nSigOpCostWithAncestors := nSigOpCostWithAncestors e - GetSigOpCost parent\<rparr>"

text \<open>The body of the inner loop of \<open>UpdatePackagesForAdded\<close>, for one descendant.\<close>

definition UpdatePackagesForAdded_desc ::
  "'p CTxMemPool \<Rightarrow> txiter list \<Rightarrow> txiter \<Rightarrow> txiter \<Rightarrow> CTxMemPoolModifiedEntry list \<Rightarrow> CTxMemPoolModifiedEntry list" where
  "UpdatePackagesForAdded_desc mp alreadyAdded it desc mapModifiedTx =
     (if desc \<in> set alreadyAdded then mapModifiedTx
      else case mm_find desc mapModifiedTx of
        None \<Rightarrow>
          (let modEntry = CTxMemPoolModifiedEntry_of mp desc;
               modEntry1 = modEntry\<lparr>nSizeWithAncestors :=
                              nSizeWithAncestors modEntry - GetTxSize (deref mp it)\<rparr>;
               modEntry2 = modEntry1\<lparr>nModFeesWithAncestors :=
                              nModFeesWithAncestors modEntry1 - GetModifiedFee (deref mp it)\<rparr>;
               modEntry3 = modEntry2\<lparr>nSigOpCostWithAncestors :=
                              nSigOpCostWithAncestors modEntry2 - GetSigOpCost (deref mp it)\<rparr>
           in mm_insert modEntry3 mapModifiedTx)
      | Some mit \<Rightarrow>
          mm_modify desc (update_for_parent_inclusion (deref mp it)) mapModifiedTx)"

definition UpdatePackagesForAdded ::
  "'p CTxMemPool \<Rightarrow> txiter list \<Rightarrow> CTxMemPoolModifiedEntry list \<Rightarrow> CTxMemPoolModifiedEntry list" where
  "UpdatePackagesForAdded mp alreadyAdded mapModifiedTx =
     fold (\<lambda>it mm. fold (UpdatePackagesForAdded_desc mp alreadyAdded it)
                         (setEntries_of (CalculateDescendants mp it)) mm)
          alreadyAdded mapModifiedTx"

section \<open>Loops\<close>

text \<open>
  One pass through the body of a \<open>while\<close> loop either goes round again with a new
  state, leaves the loop (\<open>break\<close>, \<open>return\<close>, or the loop condition turning false), or
  stops the program at a failed \<open>assert\<close>. \<open>iterate\<close> runs such a body with fuel: \<open>None\<close>
  means that the fuel ran out before the loop ended.
\<close>

datatype error = AssertionFailure | BadAlloc

datatype ('s, 'r) step = Continue 's | Break 'r | AssertFail

fun iterate :: "nat \<Rightarrow> ('s \<Rightarrow> ('s, 'r) step) \<Rightarrow> 's \<Rightarrow> (error + 'r) option" where
  "iterate 0 body s = None"
| "iterate (Suc n) body s =
     (case body s of
        Continue s' \<Rightarrow> iterate n body s'
      | Break r \<Rightarrow> Some (Inr r)
      | AssertFail \<Rightarrow> Some (Inl AssertionFailure))"

section \<open>Package selection by ancestor fee rate\<close>

definition isStillDependent :: "'p CTxMemPool \<Rightarrow> BlockAssembler \<Rightarrow> txiter \<Rightarrow> bool" where
  "isStillDependent mp a it =
     list_ex (\<lambda>parent. parent \<notin> set (inBlock a)) (setEntries_of (GetMemPoolParents mp it))"

definition onlyUnconfirmed :: "BlockAssembler \<Rightarrow> txiter list \<Rightarrow> txiter list" where
  "onlyUnconfirmed a testSet = filter (\<lambda>iit. iit \<notin> set (inBlock a)) testSet"

definition SkipMapTxEntry ::
  "BlockAssembler \<Rightarrow> txiter \<Rightarrow> CTxMemPoolModifiedEntry list \<Rightarrow> txiter list \<Rightarrow> bool" where
  "SkipMapTxEntry a it mapModifiedTx failedTx =
     (mm_find it mapModifiedTx \<noteq> None \<or> it \<in> set (inBlock a) \<or> it \<in> set failedTx)"

text \<open>
  Modelled from the spec: the comparator \<open>CompareTxIterByAncestorCount\<close> is declared in
  txmempool.h, which is not among the sources. The spec orders the package "by
  ancestor-count ascending"; entries with equal counts are ordered by hash, the order of
  the \<open>setEntries\<close> the package comes from. \<open>sort_key\<close> is stable, so sorting the hashes
  first gives that order whatever the list looked like.
\<close>

definition SortForBlock :: "'p CTxMemPool \<Rightarrow> txiter list \<Rightarrow> txiter list" where
  "SortForBlock mp package =
     sort_key (\<lambda>it. GetCountWithAncestors (deref mp it)) (sort package)"

record PackageLoop =
  mi :: "txiter list"
  mapModifiedTx :: "CTxMemPoolModifiedEntry list"
  failedTx :: "txiter list"
  asm :: BlockAssembler

text \<open>
  What both failure branches of the loop do: a candidate taken from the modified set is
  erased from it and remembered in \<open>failedTx\<close>; one taken from \<open>mapTx\<close> is just left
  behind.
\<close>

definition package_failed :: "PackageLoop \<Rightarrow> txiter \<Rightarrow> bool \<Rightarrow> PackageLoop" where
  "package_failed s it fUsingModified =
     (if fUsingModified
      then s\<lparr>mapModifiedTx := mm_erase it (mapModifiedTx s),
             failedTx := set_insert it (failedTx s)\<rparr>
      else s)"

text \<open>
  The loop body from the \<open>assert\<close> on: \<open>it\<close> is the candidate and \<open>modit\<close> the modified
  entry when the candidate was taken from the modified set (\<open>fUsingModified\<close>).
\<close>

definition addPackageTxs_candidate ::
  "'p Env \<Rightarrow> 'p CTxMemPool \<Rightarrow> PackageLoop \<Rightarrow> txiter \<Rightarrow> CTxMemPoolModifiedEntry option
     \<Rightarrow> (PackageLoop, BlockAssembler) step" where
  "addPackageTxs_candidate env mp s it modit =
     (let a = asm s; fUsingModified = (modit \<noteq> None) in
      if it \<in> set (inBlock a) then AssertFail
      else
        let (packageSize, packageFees, packageSigOpsCost) =
              (case modit of
                 None \<Rightarrow> (GetSizeWithAncestors (deref mp it),
                           GetModFeesWithAncestors (deref mp it),
                           GetSigOpCostWithAncestors (deref mp it))
               | Some m \<Rightarrow> (nSizeWithAncestors m, nModFeesWithAncestors m,
                             nSigOpCostWithAncestors m))
        in if packageFees < minRelayTxFee_GetFee env packageSize then Break a
           else
             let (fits, a1) = TestPackage env a packageSize packageSigOpsCost in
             if \<not> fits then Continue (package_failed (s\<lparr>asm := a1\<rparr>) it fUsingModified)
             else
               let ancestors = set_insert it
                                 (onlyUnconfirmed a1 (setEntries_of (CalculateMemPoolAncestors mp it)));
                   (ok, a2) = TestPackageTransactions env mp a1 ancestors in
               if \<not> ok then Continue (package_failed (s\<lparr>asm := a2\<rparr>) it fUsingModified)
               else
                 let sortedEntries = SortForBlock mp ancestors;
                     (a3, mm3) = fold (\<lambda>e (a', mm'). (AddToBlock env mp a' e, mm_erase e mm'))
                                      sortedEntries (a2, mapModifiedTx s)
                 in Continue (s\<lparr>asm := a3,
                                 mapModifiedTx := UpdatePackagesForAdded mp ancestors mm3\<rparr>))"

definition addPackageTxs_body ::
  "'p Env \<Rightarrow> 'p CTxMemPool \<Rightarrow> PackageLoop \<Rightarrow> (PackageLoop, BlockAssembler) step" where
  "addPackageTxs_body env mp s =
     (case (mi s, mm_begin env (mapModifiedTx s)) of
        ([], None) \<Rightarrow> Break (asm s)
      | ([], Some modit) \<Rightarrow> addPackageTxs_candidate env mp s (iter modit) (Some modit)
      | (it # rest, None) \<Rightarrow>
          if SkipMapTxEntry (asm s) it (mapModifiedTx s) (failedTx s)
          then Continue (s\<lparr>mi := rest\<rparr>)
          else addPackageTxs_candidate env mp (s\<lparr>mi := rest\<rparr>) it None
      | (it # rest, Some modit) \<Rightarrow>
          if SkipMapTxEntry (asm s) it (mapModifiedTx s) (failedTx s)
          then Continue (s\<lparr>mi := rest\<rparr>)
          else if CompareModifiedEntry env modit (CTxMemPoolModifiedEntry_of mp it)
          then addPackageTxs_candidate env mp s (iter modit) (Some modit)
          else addPackageTxs_candidate env mp (s\<lparr>mi := rest\<rparr>) it None)"

definition addPackageTxs ::
  "nat \<Rightarrow> 'p Env \<Rightarrow> 'p CTxMemPool \<Rightarrow> BlockAssembler \<Rightarrow> (error + BlockAssembler) option" where
  "addPackageTxs fuel env mp a =
     iterate fuel (addPackageTxs_body env mp)
       \<lparr>mi = ancestor_score mp,
        mapModifiedTx = UpdatePackagesForAdded mp (inBlock a) [],
        failedTx = [],
        asm = a\<rparr>"

section \<open>Priority reservation\<close>

text \<open>
  \<open>vecPriority\<close> is a binary heap under \<open>pricomparer\<close>. The model keeps its elements in
  a list: \<open>heap_front\<close> is \<open>front()\<close>, an element that none exceeds; \<open>pop_heap\<close> with
  \<open>pop_back\<close> removes it; \<open>push_back\<close> with \<open>push_heap\<close> adds one.
  \<open>waitPriMap\<close> is a \<open>std::map\<close>, here an association list.
\<close>

fun heap_front :: "('x \<Rightarrow> 'x \<Rightarrow> bool) \<Rightarrow> 'x \<Rightarrow> 'x list \<Rightarrow> 'x" where
  "heap_front lt x [] = x"
| "heap_front lt x (y # ys) = heap_front lt (if lt x y then y else x) ys"

definition waitPriMap_insert :: "txiter \<times> 'p \<Rightarrow> (txiter \<times> 'p) list \<Rightarrow> (txiter \<times> 'p) list" where
  "waitPriMap_insert kv w = (if map_of w (fst kv) = None then w @ [kv] else w)"

definition waitPriMap_erase :: "txiter \<Rightarrow> (txiter \<times> 'p) list \<Rightarrow> (txiter \<times> 'p) list" where
  "waitPriMap_erase k w = filter (\<lambda>kv. fst kv \<noteq> k) w"

record 'p PriorityLoop =
  vecPriority :: "('p \<times> txiter) list"
  waitPriMap :: "(txiter \<times> 'p) list"
  nClock :: nat
  asm_pri :: BlockAssembler

text \<open>The loop over the children of a transaction just added.\<close>

definition requeue_child :: "txiter \<Rightarrow> 'p PriorityLoop \<Rightarrow> 'p PriorityLoop" where
  "requeue_child child s =
     (case map_of (waitPriMap s) child of
        None \<Rightarrow> s
      | Some pri \<Rightarrow> s\<lparr>vecPriority := vecPriority s @ [(pri, child)],
                       waitPriMap := waitPriMap_erase child (waitPriMap s)\<rparr>)"

text \<open>
  The loop body. \<open>blockTime\<close> is the argument of \<open>addPriorityTxs\<close>, passed as an \<open>int\<close>
  and cast back to \<open>unsigned int\<close> at its one use, which gives the 32 bits it was
  read from. \<open>nClock\<close> counts the readings of the adjusted clock.
\<close>

definition addPriorityTxs_body ::
  "'p Env \<Rightarrow> 'p CTxMemPool \<Rightarrow> bool \<Rightarrow> uint32 \<Rightarrow> nat \<Rightarrow> 'p PriorityLoop
     \<Rightarrow> ('p PriorityLoop, 'p PriorityLoop) step" where
  "addPriorityTxs_body env mp fProofOfStake blockTime nBlockPrioritySize s =
     (case vecPriority s of
        [] \<Rightarrow> Break s
      | v # vs \<Rightarrow>
          if blockFinished (asm_pri s) then Break s
          else
            let a = asm_pri s;
                nAdjTime = (word_of_int (GetAdjustedTime env (nClock s)) :: uint32);
                top = heap_front (pricomparer env) v vs;
                it = snd top;
                actualPriority = fst top;
                s1 = s\<lparr>vecPriority := remove1 top (v # vs), nClock := nClock s + 1\<rparr>;
                tx = GetTx (deref mp it)
            in if it \<in> set (inBlock a) then AssertFail
               else if \<not> fIncludeWitness a \<and> \<not> wit_IsNull tx then Continue s1
               else if nTime tx > nAdjTime \<or> (fProofOfStake \<and> nTime tx > blockTime)
               then Continue s1
               else if isStillDependent mp a it
               then Continue (s1\<lparr>waitPriMap := waitPriMap_insert (it, actualPriority) (waitPriMap s1)\<rparr>)
               else
                 let (fits, a1) = TestForBlock env mp a it in
                 if fits then
                   (let a2 = AddToBlock env mp a1 it in
                    if nBlockSize a2 \<ge> nBlockPrioritySize \<or> \<not> AllowFree env actualPriority
                    then Break (s1\<lparr>asm_pri := a2\<rparr>)
                    else Continue (fold requeue_child (setEntries_of (GetMemPoolChildren mp it))
                                     (s1\<lparr>asm_pri := a2\<rparr>)))
                 else Continue (s1\<lparr>asm_pri := a1\<rparr>))"

text \<open>
  \<open>addPriorityTxs\<close>; \<open>k\<close> is the number of clock readings made before the call, and
  the result carries the number made after it.
\<close>

definition addPriorityTxs ::
  "nat \<Rightarrow> 'p Env \<Rightarrow> 'p CTxMemPool \<Rightarrow> bool \<Rightarrow> uint32 \<Rightarrow> nat \<Rightarrow> BlockAssembler
     \<Rightarrow> (error + nat \<times> BlockAssembler) option" where
  "addPriorityTxs fuel env mp fProofOfStake blockTime k a =
     (let nBlockPrioritySize = min (nBlockMaxSize a) (blockprioritysize env) in
      if nBlockPrioritySize = 0 then Some (Inr (k, a))
      else
        let fSizeAccounting = fNeedSizeAccounting a;
            a1 = a\<lparr>fNeedSizeAccounting := True\<rparr>;
            vec = map (\<lambda>m. (GetPriority mp m (nHeight a1), m)) (mapTx mp)
        in case iterate fuel
                  (addPriorityTxs_body env mp fProofOfStake blockTime nBlockPrioritySize)
                  \<lparr>vecPriority = vec, waitPriMap = [], nClock = k, asm_pri = a1\<rparr> of
             None \<Rightarrow> None
           | Some (Inl e) \<Rightarrow> Some (Inl e)
           | Some (Inr s) \<Rightarrow>
               Some (Inr (nClock s, (asm_pri s)\<lparr>fNeedSizeAccounting := fSizeAccounting\<rparr>)))"

section \<open>CreateNewBlock\<close>

text \<open>
  Modelled from the spec: \<open>CBlock::GetMaxTransactionTime\<close> is declared in
  primitives/block.h, which is not among the sources. The spec calls its value
  \<open>block.maxTxTime\<close>, the greatest timestamp of the block's transactions.
\<close>

definition GetMaxTransactionTime :: "CBlock \<Rightarrow> int" where
  "GetMaxTransactionTime b = fold (\<lambda>tx m. max m (uint (nTime tx))) (vtx b) 0"

definition GetBlockTime :: "CBlock \<Rightarrow> int" where
  "GetBlockTime b = uint (nTime_blk b)"

text \<open>Converting a \<open>CMutableTransaction\<close> to a \<open>CTransaction\<close> computes its hash.\<close>

definition CTransaction_of :: "'p Env \<Rightarrow> CTransaction \<Rightarrow> CTransaction" where
  "CTransaction_of env tx = tx\<lparr>hash := SerializeHash env tx\<rparr>"

text \<open>
  The part of \<open>CreateNewBlock\<close> after the two selection phases: coinbase, commitment,
  fee and sigop entries of the coinbase, header. \<open>k\<close> is the number of clock readings
  made so far. The three counters published for observation (\<open>nLastBlockTx\<close> and its
  siblings) are copies of \<open>nBlockTx\<close>, \<open>nBlockSize\<close> and \<open>nBlockWeight\<close> and are not
  carried.
\<close>

definition CreateNewBlock_finish ::
  "'p Env \<Rightarrow> CBlockIndex \<Rightarrow> CScript \<Rightarrow> bool \<Rightarrow> CAmount option \<Rightarrow> nat \<Rightarrow> BlockAssembler
     \<Rightarrow> CBlockTemplate \<times> CAmount option" where
  "CreateNewBlock_finish env pindexPrev scriptPubKeyIn fProofOfStake pStakeReward k a =
     (let t = pblocktemplate a;
          b = block t;
          out0 = (if fProofOfStake then \<lparr>nValue = 0, scriptPubKey = []\<rparr>
                  else \<lparr>nValue = nFees a + GetBlockSubsidy env (nHeight a),
                        scriptPubKey = scriptPubKeyIn\<rparr>);
          pStakeReward' = (if fProofOfStake
                           then Some (nFees a + GetProofOfStakeReward env (nHeight a))
                           else pStakeReward);
          coinbaseTx = \<lparr>hash = 0, nTime = word_of_int (GetAdjustedTime env k),
                        vin = [\<lparr>prevout_IsNull = True,
                                scriptSig = [ScriptNum (nHeight a), OP_0]\<rparr>],
                        vout = [out0], nLockTime = 0, wit_IsNull = True\<rparr>;
          b1 = b\<lparr>vtx := (vtx b)[0 := CTransaction_of env coinbaseTx]\<rparr>;
          commitment = GenerateCoinbaseCommitment env b1 pindexPrev;
          fees = (vTxFees t)[0 := - nFees a];
          b2 = b1\<lparr>hashPrevBlock := GetBlockHash pindexPrev\<rparr>;
          b3 = (if fProofOfStake then
                  (let b' = b2\<lparr>nTime_blk := word_of_int
                               (max (GetMedianTimePast pindexPrev + BLOCK_LIMITER_TIME env + 1)
                                    (GetMaxTransactionTime b2))\<rparr>
                   in b'\<lparr>nTime_blk := word_of_int
                            (max (GetBlockTime b') (PastDrift env (GetBlockTime_idx pindexPrev)))\<rparr>)
                else snd (UpdateTime (BLOCK_LIMITER_TIME env) (GetAdjustedTime env (k + 1))
                            b2 pindexPrev));
          b4 = b3\<lparr>nBits := GetNextWorkRequired env pindexPrev fProofOfStake, nNonce := 0\<rparr>;
          sigops = (vTxSigOpsCost t)
                     [0 := int WITNESS_SCALE_FACTOR * GetLegacySigOpCount env (vtx b4 ! 0)]
      in (t\<lparr>block := b4, vTxFees := fees, vTxSigOpsCost := sigops,
            vchCoinbaseCommitment := commitment\<rparr>, pStakeReward'))"

text \<open>
  The part before the selection phases, from the fresh template that \<open>pblocktemplate\<close>
  holds after a successful allocation (\<open>CBlockTemplate_new\<close>) to the decision on witness
  transactions; it makes the first clock reading.
\<close>

definition CreateNewBlock_start ::
  "'p Env \<Rightarrow> CBlockIndex \<Rightarrow> bool \<Rightarrow> BlockAssembler \<Rightarrow> BlockAssembler" where
  "CreateNewBlock_start env pindexPrev fMineWitnessTx a =
     (let t = CBlockTemplate_new;
          b = (block t)\<lparr>vtx := vtx (block t) @ [CTransaction_default env]\<rparr>;
          ver = ComputeBlockVersion env pindexPrev;
          b1 = b\<lparr>nVersion := (if MineBlocksOnDemand env then blockversion env ver else ver),
                 nTime_blk := word_of_int (GetAdjustedTime env 0)\<rparr>;
          t1 = t\<lparr>block := b1, vTxFees := vTxFees t @ [-1],
                 vTxSigOpsCost := vTxSigOpsCost t @ [-1]\<rparr>;
          nMedianTimePast = GetMedianTimePast pindexPrev
      in a\<lparr>pblocktemplate := t1,
           nHeight := nHeight_idx pindexPrev + 1,
           nLockTimeCutoff := (if fLockTimeMedianTimePast env then nMedianTimePast
                               else GetBlockTime b1),
           fIncludeWitness := (IsWitnessEnabled env pindexPrev \<and> fMineWitnessTx)\<rparr>)"

text \<open>
  \<open>new CBlockTemplate()\<close> is a plain new-expression: it yields a pointer to a fresh
  object, never the null pointer, and when the allocation fails it throws
  \<open>std::bad_alloc\<close>, which \<open>CreateNewBlock\<close> does not catch. The result is the pointer
  that \<open>pblocktemplate.get()\<close> returns after the \<open>reset\<close> (\<open>None\<close> for null), or the
  exception.
\<close>

definition new_CBlockTemplate :: "'p Env \<Rightarrow> error + CBlockTemplate option" where
  "new_CBlockTemplate env =
     (if new_CBlockTemplate_ok env then Inr (Some CBlockTemplate_new) else Inl BadAlloc)"

text \<open>
  \<open>CreateNewBlock\<close>. \<open>pStakeReward\<close> is \<open>None\<close> for a null pointer and otherwise the
  value it points to; the result is the returned pointer (\<open>None\<close> for \<open>NULL\<close>), the value
  behind \<open>pStakeReward\<close> afterwards, and the assembler. \<open>pindexPrev\<close> is the tip of the
  active chain.
\<close>

definition CreateNewBlock ::
  "nat \<Rightarrow> 'p Env \<Rightarrow> 'p CTxMemPool \<Rightarrow> CBlockIndex \<Rightarrow> BlockAssembler \<Rightarrow> CScript \<Rightarrow> bool
     \<Rightarrow> CAmount option \<Rightarrow> bool
     \<Rightarrow> (error + CBlockTemplate option \<times> CAmount option \<times> BlockAssembler) option" where
  "CreateNewBlock fuel env mp pindexPrev a0 scriptPubKeyIn fProofOfStake pStakeReward
       fMineWitnessTx =
     (let a = resetBlock a0 in
      if fProofOfStake \<and> pStakeReward = None then Some (Inr (None, pStakeReward, a))
      else case new_CBlockTemplate env of
        Inl e \<Rightarrow> Some (Inl e)
      | Inr None \<Rightarrow> Some (Inr (None, pStakeReward, a))
      | Inr (Some t0) \<Rightarrow>
         (let a1 = CreateNewBlock_start env pindexPrev fMineWitnessTx a in
          case addPriorityTxs fuel env mp fProofOfStake
                 (nTime (vtx (block (pblocktemplate a1)) ! 0)) 1 a1 of
            None \<Rightarrow> None
          | Some (Inl e) \<Rightarrow> Some (Inl e)
          | Some (Inr (k, a2)) \<Rightarrow>
              (case addPackageTxs fuel env mp a2 of
                 None \<Rightarrow> None
               | Some (Inl e) \<Rightarrow> Some (Inl e)
               | Some (Inr a3) \<Rightarrow>
                   (let (t, reward) = CreateNewBlock_finish env pindexPrev scriptPubKeyIn
                                        fProofOfStake pStakeReward k a3
                    in Some (Inr (Some t, reward, a3\<lparr>pblocktemplate := t\<rparr>))))))"

section \<open>SignBlock\<close>








section \<open>Auxiliary notions\<close>

text \<open>
  Names for what the loop body of \<open>addPackageTxs\<close> computes along the way: the package
  of a candidate (its unconfirmed ancestors and itself), the block after a list of
  transactions has been added, and the three package aggregates, read from the modified
  entry when there is one and from the mempool entry otherwise.
\<close>

definition package_of :: "'p CTxMemPool \<Rightarrow> BlockAssembler \<Rightarrow> txiter \<Rightarrow> txiter list" where
  "package_of mp a it =
     set_insert it (onlyUnconfirmed a (setEntries_of (CalculateMemPoolAncestors mp it)))"

definition AddPackage :: "'p Env \<Rightarrow> 'p CTxMemPool \<Rightarrow> txiter list \<Rightarrow> BlockAssembler \<Rightarrow> BlockAssembler" where
  "AddPackage env mp pkg a = fold (\<lambda>e a'. AddToBlock env mp a' e) pkg a"

definition package_size :: "'p CTxMemPool \<Rightarrow> txiter \<Rightarrow> CTxMemPoolModifiedEntry option \<Rightarrow> nat" where
  "package_size mp it modit =
     (case modit of None \<Rightarrow> GetSizeWithAncestors (deref mp it) | Some m \<Rightarrow> nSizeWithAncestors m)"

definition package_fees :: "'p CTxMemPool \<Rightarrow> txiter \<Rightarrow> CTxMemPoolModifiedEntry option \<Rightarrow> CAmount" where
  "package_fees mp it modit =
     (case modit of None \<Rightarrow> GetModFeesWithAncestors (deref mp it) | Some m \<Rightarrow> nModFeesWithAncestors m)"

definition package_sigops :: "'p CTxMemPool \<Rightarrow> txiter \<Rightarrow> CTxMemPoolModifiedEntry option \<Rightarrow> int" where
  "package_sigops mp it modit =
     (case modit of None \<Rightarrow> GetSigOpCostWithAncestors (deref mp it) | Some m \<Rightarrow> nSigOpCostWithAncestors m)"

text \<open>
  In the loop body of \<open>addPriorityTxs\<close>: the element popped off the heap, and the loop
  state once it is popped and the clock has been read.
\<close>

definition pri_top :: "'p Env \<Rightarrow> 'p PriorityLoop \<Rightarrow> 'p \<times> txiter" where
  "pri_top env s = heap_front (pricomparer env) (hd (vecPriority s)) (tl (vecPriority s))"

definition pri_popped :: "'p Env \<Rightarrow> 'p PriorityLoop \<Rightarrow> 'p PriorityLoop" where
  "pri_popped env s = s\<lparr>vecPriority := remove1 (pri_top env s) (vecPriority s), nClock := nClock s + 1\<rparr>"

text \<open>The three vectors of the template have one element for the coinbase and one for each
  transaction counted by \<open>nBlockTx\<close>.\<close>

definition vectors_aligned :: "BlockAssembler \<Rightarrow> bool" where
  "vectors_aligned a =
     (length (vtx (block (pblocktemplate a))) = nBlockTx a + 1
      \<and> length (vTxFees (pblocktemplate a)) = nBlockTx a + 1
      \<and> length (vTxSigOpsCost (pblocktemplate a)) = nBlockTx a + 1)"

section \<open>A pool of three transactions\<close>

text \<open>
  A concrete mempool on which the assembler is run in the sequel. Transactions 11 and 12
  have no unconfirmed parent; 13 spends both and is not final. Transaction 11 carries a
  timestamp later than the clock. Each has 100 bytes, weight 400 and sigop cost 4.
  The node has the default limits and reserves 1100 bytes for priority.
\<close>

definition ex_tx :: "uint256 \<Rightarrow> uint32 \<Rightarrow> nat \<Rightarrow> CTransaction" where
  "ex_tx h t lt = \<lparr>hash = h, nTime = t, vin = [], vout = [], nLockTime = lt, wit_IsNull = True\<rparr>"

definition ex_entry :: "uint256 \<Rightarrow> uint32 \<Rightarrow> nat \<Rightarrow> CAmount \<Rightarrow> nat \<Rightarrow> nat \<Rightarrow> CAmount \<Rightarrow> CTxMemPoolEntry" where
  "ex_entry h t lt fee cnt sizeAnc feesAnc =
     \<lparr>GetTx = ex_tx h t lt, GetFee = fee, GetModifiedFee = fee, GetTxSize = 100,
      GetTxWeight = 400, GetSigOpCost = 4, GetCountWithAncestors = cnt,
      GetSizeWithAncestors = sizeAnc, GetModFeesWithAncestors = feesAnc,
      GetSigOpCostWithAncestors = 4 * int cnt\<rparr>"

definition ex_env :: "nat Env" where
  "ex_env = \<lparr>MAX_BLOCK_SIGOPS_COST = 80000, BLOCK_LIMITER_TIME = 10,
     fLockTimeMedianTimePast = True, blockprioritysize = 1100, MineBlocksOnDemand = False,
     blockversion = (\<lambda>v. v), GetAdjustedTime = (\<lambda>k. 1000), new_CBlockTemplate_ok = True,
     CTransaction_default = ex_tx 0 0 0, ComputeBlockVersion = (\<lambda>p. 4),
     IsWitnessEnabled = (\<lambda>p. True), GetNextWorkRequired = (\<lambda>p f. 7),
     GetBlockSubsidy = (\<lambda>h. 50), GetProofOfStakeReward = (\<lambda>h. 20), PastDrift = (\<lambda>t. t - 600),
     GenerateCoinbaseCommitment = (\<lambda>b p. []), GetLegacySigOpCount = (\<lambda>tx. 1),
     IsFinalTx = (\<lambda>tx h c. nLockTime tx = 0), GetSerializeSize = (\<lambda>tx. 100),
     SerializeHash = (\<lambda>tx. 99), minRelayTxFee_GetFee = (\<lambda>n. int n), AllowFree = (\<lambda>p. 5 < p),
     CompareModifiedEntry = (\<lambda>x y. nModFeesWithAncestors x * int (nSizeWithAncestors y)
                                     > nModFeesWithAncestors y * int (nSizeWithAncestors x)
                                    \<or> (nModFeesWithAncestors x * int (nSizeWithAncestors y)
                                         = nModFeesWithAncestors y * int (nSizeWithAncestors x)
                                        \<and> iter x < iter y)),
     pricomparer = (\<lambda>x y. fst x < fst y \<or> (fst x = fst y \<and> snd x < snd y))\<rparr>"

definition ex_mp :: "nat CTxMemPool" where
  "ex_mp = \<lparr>mapTx = [11, 12, 13], ancestor_score = [13, 11, 12],
     deref = (\<lambda>h. if h = 11 then ex_entry 11 2000 0 1000 1 100 1000
                   else if h = 12 then ex_entry 12 900 0 100 1 100 100
                   else ex_entry h 900 1 5000 3 300 6100),
     GetMemPoolParents = (\<lambda>h. if h = 13 then [11, 12] else []),
     GetMemPoolChildren = (\<lambda>h. if h = 11 \<or> h = 12 then [13] else []),
     CalculateDescendants = (\<lambda>h. if h = 11 \<or> h = 12 then [h, 13] else [h]),
     CalculateMemPoolAncestors = (\<lambda>h. if h = 13 then [11, 12] else []),
     GetPriority = (\<lambda>h n. if h = 11 then 10 else if h = 12 then 1 else 20)\<rparr>"

definition ex_tip :: CBlockIndex where
  "ex_tip = \<lparr>nHeight_idx = 10, GetMedianTimePast = 800, GetBlockTime_idx = 900, GetBlockHash = 42\<rparr>"

definition ex_asm :: BlockAssembler where
  "ex_asm = BlockAssembler_ctor 3000000 750000 4000000 4000000 None None"

definition ex_fuel :: nat where
  "ex_fuel = 6"

definition ex_a1 :: BlockAssembler where
  "ex_a1 = CreateNewBlock_start ex_env ex_tip True (resetBlock ex_asm)"

definition ex_a2 :: BlockAssembler where
  "ex_a2 = (AddToBlock ex_env ex_mp (ex_a1\<lparr>fNeedSizeAccounting := True\<rparr>) 12)\<lparr>fNeedSizeAccounting := True\<rparr>"

definition ex_a3 :: BlockAssembler where
  "ex_a3 = AddToBlock ex_env ex_mp ex_a2 11"

definition ex_pri :: "(nat \<times> txiter) list \<Rightarrow> (txiter \<times> nat) list \<Rightarrow> nat \<Rightarrow> BlockAssembler \<Rightarrow> nat PriorityLoop" where
  "ex_pri v w k a = \<lparr>vecPriority = v, waitPriMap = w, nClock = k, asm_pri = a\<rparr>"

definition ex_pkg :: "txiter list \<Rightarrow> CTxMemPoolModifiedEntry list \<Rightarrow> txiter list \<Rightarrow> BlockAssembler \<Rightarrow> PackageLoop" where
  "ex_pkg m mm f a = \<lparr>mi = m, mapModifiedTx = mm, failedTx = f, asm = a\<rparr>"

definition ex_mod :: "nat \<Rightarrow> CAmount \<Rightarrow> CTxMemPoolModifiedEntry" where
  "ex_mod sz fees = \<lparr>iter = 13, nSizeWithAncestors = sz, nModFeesWithAncestors = fees,
     nSigOpCostWithAncestors = 8\<rparr>"

definition ex_t :: CBlockTemplate where
  "ex_t = fst (CreateNewBlock_finish ex_env ex_tip [] False None 4 ex_a3)"

text \<open>
  The fees are recorded: \<open>nFees\<close> is the sum of the fee entries after the coinbase's,
  which are the fees of the mempool entries of the transactions after the coinbase.
\<close>

definition fees_recorded :: "'p CTxMemPool \<Rightarrow> int \<Rightarrow> BlockAssembler \<Rightarrow> bool" where
  "fees_recorded mp h a =
     (nHeight a = h
      \<and> vTxFees (pblocktemplate a) \<noteq> []
      \<and> vtx (block (pblocktemplate a)) \<noteq> []
      \<and> nFees a = sum_list (tl (vTxFees (pblocktemplate a)))
      \<and> tl (vTxFees (pblocktemplate a))
          = map (\<lambda>tx. GetFee (deref mp (hash tx))) (tl (vtx (block (pblocktemplate a)))))"





definition subtract_parents :: "'p CTxMemPool \<Rightarrow> txiter list \<Rightarrow> CTxMemPoolModifiedEntry \<Rightarrow> CTxMemPoolModifiedEntry" where
  "subtract_parents mp ps m = fold (\<lambda>a. update_for_parent_inclusion (deref mp a)) ps m"

definition pri_unfit :: "'p Env \<Rightarrow> 'p CTxMemPool \<Rightarrow> bool \<Rightarrow> uint32 \<Rightarrow> 'p PriorityLoop \<Rightarrow> bool" where
  "pri_unfit env mp fPoS blockTime s =
     ((\<not> fIncludeWitness (asm_pri s) \<and> \<not> wit_IsNull (GetTx (deref mp (snd (pri_top env s)))))
      \<or> nTime (GetTx (deref mp (snd (pri_top env s)))) > word_of_int (GetAdjustedTime env (nClock s))
      \<or> (fPoS \<and> nTime (GetTx (deref mp (snd (pri_top env s)))) > blockTime))"

text \<open>
  What the assembler relies on in the mempool's ancestor sets: they are closed under
  taking ancestors, an ancestor has a smaller ancestor count (Invariant A of the spec),
  and every ancestor is a parent or an ancestor of a parent.
\<close>

definition ancestry_wf :: "'p CTxMemPool \<Rightarrow> bool" where
  "ancestry_wf mp =
     ((\<forall>x a. a \<in> set (CalculateMemPoolAncestors mp x) \<longrightarrow>
          set (CalculateMemPoolAncestors mp a) \<subseteq> set (CalculateMemPoolAncestors mp x)
          \<and> GetCountWithAncestors (deref mp a) < GetCountWithAncestors (deref mp x))
      \<and> (\<forall>x. set (CalculateMemPoolAncestors mp x)
             \<subseteq> set (GetMemPoolParents mp x)
               \<union> (\<Union>p \<in> set (GetMemPoolParents mp x). set (CalculateMemPoolAncestors mp p))))"

text \<open>The hashes of the transactions of the block after the coinbase, in block order.\<close>

definition committed :: "BlockAssembler \<Rightarrow> txiter list" where
  "committed a = map hash (tl (vtx (block (pblocktemplate a))))"

text \<open>A list of iterators is in topological order when the ancestors of each element
  stand before it.\<close>

definition topological :: "'p CTxMemPool \<Rightarrow> txiter list \<Rightarrow> bool" where
  "topological mp L =
     (\<forall>j < length L. set (CalculateMemPoolAncestors mp (L ! j)) \<subseteq> set (take j L))"

definition block_ordered :: "'p CTxMemPool \<Rightarrow> BlockAssembler \<Rightarrow> bool" where
  "block_ordered mp a =
     (vtx (block (pblocktemplate a)) \<noteq> []
      \<and> set (committed a) = set (inBlock a)
      \<and> topological mp (committed a))"

text \<open>
  What the assembler relies on in the mempool's cached aggregates: the size and the sigop
  cost with ancestors of an entry cover the entry and every ancestor the mempool lists
  for it, no entry is its own ancestor, sigop costs are not negative, and the weight of
  a transaction is at most four times its (virtual) size.
\<close>

definition aggregates_wf :: "'p CTxMemPool \<Rightarrow> bool" where
  "aggregates_wf mp =
     (\<forall>x. x \<notin> set (CalculateMemPoolAncestors mp x)
        \<and> (\<Sum>a \<in> insert x (set (CalculateMemPoolAncestors mp x)). GetTxSize (deref mp a))
            \<le> GetSizeWithAncestors (deref mp x)
        \<and> (\<Sum>a \<in> insert x (set (CalculateMemPoolAncestors mp x)). GetSigOpCost (deref mp a))
            \<le> GetSigOpCostWithAncestors (deref mp x)
        \<and> 0 \<le> GetSigOpCost (deref mp x)
        \<and> GetTxWeight (deref mp x) \<le> 4 * GetTxSize (deref mp x))"

text \<open>A descendant of an entry, other than the entry itself, has the entry among its
  ancestors.\<close>

definition descendants_wf :: "'p CTxMemPool \<Rightarrow> bool" where
  "descendants_wf mp =
     (\<forall>a d. d \<in> set (CalculateDescendants mp a) \<and> d \<noteq> a
        \<longrightarrow> a \<in> set (CalculateMemPoolAncestors mp d))"

text \<open>
  The modified entries never undercut what is left of a package: a modified aggregate
  plus the contributions of the ancestors already in the block is at least the
  aggregate of the mempool entry.
\<close>

definition modified_bounded :: "'p CTxMemPool \<Rightarrow> txiter set \<Rightarrow> CTxMemPoolModifiedEntry list \<Rightarrow> bool" where
  "modified_bounded mp inB mm =
     (\<forall>e m. mm_find e mm = Some m \<longrightarrow>
        GetSizeWithAncestors (deref mp e)
          \<le> nSizeWithAncestors m
              + (\<Sum>x \<in> inB \<inter> set (CalculateMemPoolAncestors mp e). GetTxSize (deref mp x))
        \<and> GetSigOpCostWithAncestors (deref mp e)
          \<le> nSigOpCostWithAncestors m
              + (\<Sum>x \<in> inB \<inter> set (CalculateMemPoolAncestors mp e). GetSigOpCost (deref mp x)))"

text \<open>
  The block in progress is within its limits: the weight and sigop counters are the
  reserved amounts plus the contributions of the transactions after the coinbase and do
  not exceed their caps, and so is the size counter when sizes are accounted for.
\<close>

definition within_limits :: "'p Env \<Rightarrow> 'p CTxMemPool \<Rightarrow> BlockAssembler \<Rightarrow> bool" where
  "within_limits env mp a =
     (vtx (block (pblocktemplate a)) \<noteq> []
      \<and> distinct (inBlock a)
      \<and> set (inBlock a) = hash ` set (tl (vtx (block (pblocktemplate a))))
      \<and> nBlockWeight a
          = 4000 + (\<Sum>tx \<leftarrow> tl (vtx (block (pblocktemplate a))). GetTxWeight (deref mp (hash tx)))
      \<and> nBlockWeight a \<le> nBlockMaxWeight a
      \<and> nBlockSigOpsCost a
          = 400 + (\<Sum>tx \<leftarrow> tl (vtx (block (pblocktemplate a))). GetSigOpCost (deref mp (hash tx)))
      \<and> nBlockSigOpsCost a \<le> MAX_BLOCK_SIGOPS_COST env
      \<and> (fNeedSizeAccounting a \<longrightarrow>
            nBlockSize a
              = 1000 + (\<Sum>tx \<leftarrow> tl (vtx (block (pblocktemplate a))). GetSerializeSize env tx)
            \<and> nBlockSize a \<le> nBlockMaxSize a))"

text \<open>The invariant of the package loop for the limits.\<close>

definition limits_invariant :: "'p Env \<Rightarrow> 'p CTxMemPool \<Rightarrow> PackageLoop \<Rightarrow> bool" where
  "limits_invariant env mp s =
     (within_limits env mp (asm s)
      \<and> distinct (map iter (mapModifiedTx s))
      \<and> modified_bounded mp (set (inBlock (asm s))) (mapModifiedTx s))"

text \<open>
  The ancestors of an entry that are in a set \<open>C\<close> of committed entries, and what
  Invariant B of the spec asks of a modified entry: each aggregate is the aggregate of
  the mempool entry minus the own contributions of the committed ancestors.
\<close>

definition committed_ancestors :: "'p CTxMemPool \<Rightarrow> txiter set \<Rightarrow> txiter \<Rightarrow> txiter set" where
  "committed_ancestors mp C e = set (CalculateMemPoolAncestors mp e) \<inter> C"

definition modified_exact :: "'p CTxMemPool \<Rightarrow> txiter set \<Rightarrow> CTxMemPoolModifiedEntry \<Rightarrow> bool" where
  "modified_exact mp C m =
     (int (nSizeWithAncestors m)
        = int (GetSizeWithAncestors (deref mp (iter m)))
          - (\<Sum>a \<in> committed_ancestors mp C (iter m). int (GetTxSize (deref mp a)))
      \<and> nModFeesWithAncestors m
        = GetModFeesWithAncestors (deref mp (iter m))
          - (\<Sum>a \<in> committed_ancestors mp C (iter m). GetModifiedFee (deref mp a))
      \<and> nSigOpCostWithAncestors m
        = GetSigOpCostWithAncestors (deref mp (iter m))
          - (\<Sum>a \<in> committed_ancestors mp C (iter m). GetSigOpCost (deref mp a)))"

text \<open>Invariant B in the words of the spec: every modified entry is exact for the entries
  in the block.\<close>

definition invariant_B :: "'p CTxMemPool \<Rightarrow> PackageLoop \<Rightarrow> bool" where
  "invariant_B mp s =
     (\<forall>m \<in> set (mapModifiedTx s). modified_exact mp (set (inBlock (asm s))) m)"

text \<open>
  What the code keeps: an entry that is neither in the block nor in \<open>failedTx\<close> has a
  modified entry exactly when it has an ancestor in the block, and that entry is exact.
\<close>

definition tracked :: "'p CTxMemPool \<Rightarrow> txiter set \<Rightarrow> CTxMemPoolModifiedEntry list \<Rightarrow> txiter \<Rightarrow> bool" where
  "tracked mp C mm e =
     (case mm_find e mm of
        None \<Rightarrow> committed_ancestors mp C e = {}
      | Some m \<Rightarrow> iter m = e \<and> committed_ancestors mp C e \<noteq> {} \<and> modified_exact mp C m)"

definition modified_tracked :: "'p CTxMemPool \<Rightarrow> PackageLoop \<Rightarrow> bool" where
  "modified_tracked mp s =
     (\<forall>e. e \<in> set (inBlock (asm s)) \<or> e \<in> set (failedTx s)
           \<or> tracked mp (set (inBlock (asm s))) (mapModifiedTx s) e)"

text \<open>Every ancestor of an entry has the entry among its descendants.\<close>

definition descendants_complete :: "'p CTxMemPool \<Rightarrow> bool" where
  "descendants_complete mp =
     (\<forall>a d. a \<in> set (CalculateMemPoolAncestors mp d) \<longrightarrow> d \<in> set (CalculateDescendants mp a))"

text \<open>The state in which the loop of \<open>addPackageTxs\<close> starts, and the state after \<open>n\<close>
  passes through its body (\<open>None\<close> when the loop has ended before).\<close>

definition addPackageTxs_start :: "'p CTxMemPool \<Rightarrow> BlockAssembler \<Rightarrow> PackageLoop" where
  "addPackageTxs_start mp a =
     \<lparr>mi = ancestor_score mp,
      mapModifiedTx = UpdatePackagesForAdded mp (inBlock a) [],
      failedTx = [],
      asm = a\<rparr>"

fun addPackageTxs_after :: "nat \<Rightarrow> 'p Env \<Rightarrow> 'p CTxMemPool \<Rightarrow> BlockAssembler \<Rightarrow> PackageLoop option" where
  "addPackageTxs_after 0 env mp a = Some (addPackageTxs_start mp a)"
| "addPackageTxs_after (Suc n) env mp a =
     (case addPackageTxs_after n env mp a of
        None \<Rightarrow> None
      | Some s \<Rightarrow> (case addPackageTxs_body env mp s of
                     Continue s' \<Rightarrow> Some s'
                   | Break r \<Rightarrow> None
                   | AssertFail \<Rightarrow> None))"

text \<open>
  The entries waiting in the priority loop, in the heap or in \<open>waitPriMap\<close>: each is there
  once, and none is in the block.
\<close>

definition pri_keys :: "'p PriorityLoop \<Rightarrow> txiter list" where
  "pri_keys s = map snd (vecPriority s) @ map fst (waitPriMap s)"

definition pri_invariant :: "'p PriorityLoop \<Rightarrow> bool" where
  "pri_invariant s =
     (distinct (pri_keys s) \<and> set (pri_keys s) \<inter> set (inBlock (asm_pri s)) = {})"

text \<open>The size of what is waiting, and of the heap: every pass lowers the pair.\<close>

definition pri_size :: "'p PriorityLoop \<Rightarrow> nat" where
  "pri_size s = length (vecPriority s) + length (waitPriMap s)"

definition pri_rel :: "('p PriorityLoop \<times> 'p PriorityLoop) set" where
  "pri_rel = inv_image (less_than <*lex*> less_than)
               (\<lambda>s. (pri_size s, length (vecPriority s)))"

text \<open>The block holds the ancestors of each of its entries.\<close>

definition ancestor_closed :: "'p CTxMemPool \<Rightarrow> BlockAssembler \<Rightarrow> bool" where
  "ancestor_closed mp a =
     (\<forall>d \<in> set (inBlock a). set (CalculateMemPoolAncestors mp d) \<subseteq> set (inBlock a))"

text \<open>
  The mempool's indices range over the same entries: \<open>mapTx\<close> lists each entry once, the
  ancestor-score index lists entries of \<open>mapTx\<close>, and the descendants of an entry are
  entries of \<open>mapTx\<close>.
\<close>

definition pool_wf :: "'p CTxMemPool \<Rightarrow> bool" where
  "pool_wf mp =
     (distinct (mapTx mp)
      \<and> set (ancestor_score mp) \<subseteq> set (mapTx mp)
      \<and> (\<forall>x d. d \<in> set (CalculateDescendants mp x) \<and> d \<noteq> x \<longrightarrow> d \<in> set (mapTx mp)))"

text \<open>
  What the loop of \<open>addPackageTxs\<close> keeps so that its \<open>assert\<close> holds: the block is closed
  under ancestors, no modified entry is for an entry of the block, and the candidates
  are entries of the mempool. Every pass either adds to the block or shortens what is
  left of the two indices.
\<close>

definition pkg_invariant :: "'p CTxMemPool \<Rightarrow> PackageLoop \<Rightarrow> bool" where
  "pkg_invariant mp s =
     (ancestor_closed mp (asm s)
      \<and> iter ` set (mapModifiedTx s) \<inter> set (inBlock (asm s)) = {}
      \<and> set (mi s) \<subseteq> set (mapTx mp)
      \<and> iter ` set (mapModifiedTx s) \<subseteq> set (mapTx mp))"

definition pkg_rel :: "'p CTxMemPool \<Rightarrow> (PackageLoop \<times> PackageLoop) set" where
  "pkg_rel mp = inv_image (less_than <*lex*> less_than)
     (\<lambda>s. (card (set (mapTx mp) - set (inBlock (asm s))),
           length (mi s) + length (mapModifiedTx s)))"

section \<open>Properties of UpdateTime and of the fit predicates\<close>

lemma uint_word_of_int_32: "0 \<le> x \<Longrightarrow> x < 2 ^ 32 \<Longrightarrow> uint (word_of_int x :: 32 word) = x"
  by (simp add: uint_word_of_int)

text \<open>
  Claim C8, as far as it holds. \<open>UpdateTime\<close> computes \<open>nNewTime\<close> as the maximum of the
  median time past of the previous block plus \<open>BLOCK_LIMITER_TIME + 1\<close> and the adjusted
  time, stores it in the header only when it is strictly greater than the time found
  there, and returns \<open>nNewTime\<close> minus the old time. The header field has 32 bits and
  \<open>nNewTime\<close> has 64: the header's time does not decrease when \<open>nNewTime\<close> is below
  \<open>2 ^ 32\<close>.
\<close>

theorem UpdateTime_spec:
  "fst (UpdateTime blt adj b p) = max (GetMedianTimePast p + blt + 1) adj - uint (nTime_blk b)
   \<and> snd (UpdateTime blt adj b p) =
       (if uint (nTime_blk b) < max (GetMedianTimePast p + blt + 1) adj
        then b\<lparr>nTime_blk := word_of_int (max (GetMedianTimePast p + blt + 1) adj)\<rparr> else b)
   \<and> (max (GetMedianTimePast p + blt + 1) adj < 2 ^ 32
        \<longrightarrow> uint (nTime_blk b) \<le> uint (nTime_blk (snd (UpdateTime blt adj b p))))"
proof -
  define n where "n = max (GetMedianTimePast p + blt + 1) adj"
  have r: "fst (UpdateTime blt adj b p) = n - uint (nTime_blk b)"
    by (simp add: UpdateTime_def n_def Let_def)
  have b': "snd (UpdateTime blt adj b p) =
      (if uint (nTime_blk b) < n then b\<lparr>nTime_blk := word_of_int n\<rparr> else b)"
    by (simp add: UpdateTime_def n_def Let_def)
  have mono: "uint (nTime_blk b) \<le> uint (nTime_blk (snd (UpdateTime blt adj b p)))"
    if fits: "n < 2 ^ 32"
  proof (cases "uint (nTime_blk b) < n")
    case True
    have "0 \<le> uint (nTime_blk b)" by simp
    with True have "0 \<le> n" by linarith
    then have "uint (word_of_int n :: 32 word) = n"
      using fits by (rule uint_word_of_int_32)
    with True b' show ?thesis by simp
  next
    case False
    with b' show ?thesis by simp
  qed
  show ?thesis
    unfolding n_def [symmetric] using r b' mono by simp
qed

theorem UpdateTime_spec_witness:
  "max (GetMedianTimePast \<lparr>nHeight_idx = 1, GetMedianTimePast = 3, GetBlockTime_idx = 3,
          GetBlockHash = 7\<rparr> + 10 + 1) 1000 < (2 ^ 32 :: int)
   \<and> fst (UpdateTime 10 1000 (CBlock_null\<lparr>nTime_blk := 5\<rparr>)
         \<lparr>nHeight_idx = 1, GetMedianTimePast = 3, GetBlockTime_idx = 3, GetBlockHash = 7\<rparr>) = 995
   \<and> nTime_blk (snd (UpdateTime 10 1000 (CBlock_null\<lparr>nTime_blk := 5\<rparr>)
         \<lparr>nHeight_idx = 1, GetMedianTimePast = 3, GetBlockTime_idx = 3, GetBlockHash = 7\<rparr>)) = 1000
   \<and> uint (nTime_blk (CBlock_null\<lparr>nTime_blk := 5\<rparr>))
       \<le> uint (nTime_blk (snd (UpdateTime 10 1000 (CBlock_null\<lparr>nTime_blk := 5\<rparr>)
         \<lparr>nHeight_idx = 1, GetMedianTimePast = 3, GetBlockTime_idx = 3, GetBlockHash = 7\<rparr>)))"
  using UpdateTime_spec [where p = "\<lparr>nHeight_idx = 1, GetMedianTimePast = 3, GetBlockTime_idx = 3,
      GetBlockHash = 7\<rparr>" and blt = 10 and adj = 1000 and b = "CBlock_null\<lparr>nTime_blk := 5\<rparr>"]
  by (simp add: CBlock_null_def)

text \<open>
  The last part of the claim as the spec states it, with no bound on \<open>nNewTime\<close>, fails:
  a header at the greatest 32-bit time, \<open>4294967295\<close>, with a clock one second later is
  found older than \<open>nNewTime = 4294967296\<close>, which is stored in 32 bits as \<open>0\<close>. The call
  returns a difference of one second, and the header's time has gone down.
\<close>

theorem UpdateTime_header_decreases:
  "uint (nTime_blk (CBlock_null\<lparr>nTime_blk := 4294967295\<rparr>)) = 4294967295
   \<and> max (GetMedianTimePast \<lparr>nHeight_idx = 1, GetMedianTimePast = 3, GetBlockTime_idx = 3,
            GetBlockHash = 7\<rparr> + 10 + 1) 4294967296 = 4294967296
   \<and> fst (UpdateTime 10 4294967296 (CBlock_null\<lparr>nTime_blk := 4294967295\<rparr>)
         \<lparr>nHeight_idx = 1, GetMedianTimePast = 3, GetBlockTime_idx = 3, GetBlockHash = 7\<rparr>) = 1
   \<and> uint (nTime_blk (snd (UpdateTime 10 4294967296 (CBlock_null\<lparr>nTime_blk := 4294967295\<rparr>)
         \<lparr>nHeight_idx = 1, GetMedianTimePast = 3, GetBlockTime_idx = 3, GetBlockHash = 7\<rparr>))) = 0
   \<and> uint (nTime_blk (snd (UpdateTime 10 4294967296 (CBlock_null\<lparr>nTime_blk := 4294967295\<rparr>)
         \<lparr>nHeight_idx = 1, GetMedianTimePast = 3, GetBlockTime_idx = 3, GetBlockHash = 7\<rparr>)))
       < uint (nTime_blk (CBlock_null\<lparr>nTime_blk := 4294967295\<rparr>))"
  by (simp add: UpdateTime_def Let_def CBlock_null_def)

lemma TestPackageTransactions_loop_state:
  "snd (TestPackageTransactions_loop env mp a n package) = a"
  by (induction package arbitrary: n) (simp_all add: Let_def)

lemma TestPackage_state: "snd (TestPackage env a packageSize packageSigOpsCost) = a"
  by (simp add: TestPackage_def)

lemma TestPackageTransactions_state: "snd (TestPackageTransactions env mp a package) = a"
  by (simp add: TestPackageTransactions_def TestPackageTransactions_loop_state)

lemma TestForBlock_state:
  "snd (TestForBlock env mp a it) =
     a\<lparr>lastFewTxs := lastFewTxs (snd (TestForBlock env mp a it)),
       blockFinished := blockFinished (snd (TestForBlock env mp a it))\<rparr>"
  by (simp add: TestForBlock_def Let_def)

text \<open>
  Claim C10. \<open>TestPackage\<close> and \<open>TestPackageTransactions\<close> leave the assembler as they
  found it, whatever their verdict; \<open>TestForBlock\<close> changes at most \<open>lastFewTxs\<close> and
  \<open>blockFinished\<close>, so the counters, the fees and \<open>inBlock\<close> are untouched by all three.
\<close>

theorem fit_predicates_frame:
  "snd (TestPackage env a packageSize packageSigOpsCost) = a
   \<and> snd (TestPackageTransactions env mp a package) = a
   \<and> snd (TestForBlock env mp a it) =
       a\<lparr>lastFewTxs := lastFewTxs (snd (TestForBlock env mp a it)),
         blockFinished := blockFinished (snd (TestForBlock env mp a it))\<rparr>"
  using TestPackage_state [of env a packageSize packageSigOpsCost]
    TestPackageTransactions_state [of env mp a package]
    TestForBlock_state [of env mp a it]
  by simp

section \<open>The loops, step by step\<close>

lemma iterate_Inr_induct:
  assumes "iterate n body s = Some (Inr r)" and "I s"
    and step: "\<And>s s'. I s \<Longrightarrow> body s = Continue s' \<Longrightarrow> I s'"
    and fin: "\<And>s r. I s \<Longrightarrow> body s = Break r \<Longrightarrow> Q r"
  shows "Q r"
  using assms(1,2)
proof (induction n arbitrary: s)
  case 0
  then show ?case by simp
next
  case (Suc n)
  show ?case
  proof (cases "body s")
    case (Continue s')
    with Suc.prems have "iterate n body s' = Some (Inr r)" by simp
    moreover have "I s'" using step [OF Suc.prems(2) Continue] .
    ultimately show ?thesis by (rule Suc.IH)
  next
    case (Break r')
    with Suc.prems have "r' = r" by simp
    with fin [OF Suc.prems(2) Break] show ?thesis by simp
  next
    case AssertFail
    with Suc.prems show ?thesis by simp
  qed
qed

lemma fold_pair:
  "fold (\<lambda>e (a', mm'). (f a' e, g e mm')) xs (a, mm) = (fold (\<lambda>e a'. f a' e) xs a, fold g xs mm)"
  by (induction xs arbitrary: a mm) simp_all

lemma candidate_result:
  "addPackageTxs_candidate env mp s it modit =
     (if it \<in> set (inBlock (asm s)) then AssertFail
      else if package_fees mp it modit < minRelayTxFee_GetFee env (package_size mp it modit)
      then Break (asm s)
      else if \<not> fst (TestPackage env (asm s) (package_size mp it modit) (package_sigops mp it modit))
      then Continue (package_failed s it (modit \<noteq> None))
      else if \<not> fst (TestPackageTransactions env mp (asm s) (package_of mp (asm s) it))
      then Continue (package_failed s it (modit \<noteq> None))
      else Continue (s\<lparr>asm := AddPackage env mp (SortForBlock mp (package_of mp (asm s) it)) (asm s),
                       mapModifiedTx := UpdatePackagesForAdded mp (package_of mp (asm s) it)
                          (fold mm_erase (SortForBlock mp (package_of mp (asm s) it)) (mapModifiedTx s))\<rparr>))"
  by (cases modit)
     (simp_all add: addPackageTxs_candidate_def Let_def case_prod_beta TestPackage_state
        TestPackageTransactions_state fold_pair package_of_def AddPackage_def package_size_def
        package_fees_def package_sigops_def)

lemma addPackageTxs_body_cases:
  assumes "addPackageTxs_body env mp s = r"
  obtains (finished) "mi s = []" "mapModifiedTx s = []" "r = Break (asm s)"
  | (skip) it rest where "mi s = it # rest"
      "SkipMapTxEntry (asm s) it (mapModifiedTx s) (failedTx s)" "r = Continue (s\<lparr>mi := rest\<rparr>)"
  | (fromMapTx) it rest where "mi s = it # rest"
      "\<not> SkipMapTxEntry (asm s) it (mapModifiedTx s) (failedTx s)"
      "r = addPackageTxs_candidate env mp (s\<lparr>mi := rest\<rparr>) it None"
  | (fromModified) modit where "mm_begin env (mapModifiedTx s) = Some modit"
      "r = addPackageTxs_candidate env mp s (iter modit) (Some modit)"
proof (cases "mi s")
  case Nil
  show ?thesis
  proof (cases "mm_begin env (mapModifiedTx s)")
    case None
    then have "mapModifiedTx s = []" by (cases "mapModifiedTx s") simp_all
    with Nil None assms finished show ?thesis by (simp add: addPackageTxs_body_def)
  next
    case (Some m)
    with Nil assms fromModified show ?thesis by (simp add: addPackageTxs_body_def)
  qed
next
  case (Cons it rest)
  show ?thesis
  proof (cases "SkipMapTxEntry (asm s) it (mapModifiedTx s) (failedTx s)")
    case True
    with Cons assms skip show ?thesis
      by (simp add: addPackageTxs_body_def split: option.splits)
  next
    case False
    show ?thesis
    proof (cases "mm_begin env (mapModifiedTx s)")
      case None
      with Cons False assms fromMapTx show ?thesis by (simp add: addPackageTxs_body_def)
    next
      case (Some m)
      show ?thesis
      proof (cases "CompareModifiedEntry env m (CTxMemPoolModifiedEntry_of mp it)")
        case True
        with Cons False Some assms fromModified show ?thesis by (simp add: addPackageTxs_body_def)
      next
        case F: False
        with Cons False Some assms fromMapTx show ?thesis by (simp add: addPackageTxs_body_def)
      qed
    qed
  qed
qed

lemma addPriorityTxs_body_result:
  "addPriorityTxs_body env mp fPoS blockTime nBlockPrioritySize s =
     (if vecPriority s = [] \<or> blockFinished (asm_pri s) then Break s
      else
        let it = snd (pri_top env s); a = asm_pri s; s1 = pri_popped env s in
        if it \<in> set (inBlock a) then AssertFail
        else if \<not> fIncludeWitness a \<and> \<not> wit_IsNull (GetTx (deref mp it)) then Continue s1
        else if nTime (GetTx (deref mp it)) > word_of_int (GetAdjustedTime env (nClock s))
                \<or> (fPoS \<and> nTime (GetTx (deref mp it)) > blockTime)
        then Continue s1
        else if isStillDependent mp a it
        then Continue (s1\<lparr>waitPriMap := waitPriMap_insert (it, fst (pri_top env s)) (waitPriMap s)\<rparr>)
        else if fst (TestForBlock env mp a it) then
          (if nBlockSize (AddToBlock env mp (snd (TestForBlock env mp a it)) it) \<ge> nBlockPrioritySize
               \<or> \<not> AllowFree env (fst (pri_top env s))
           then Break (s1\<lparr>asm_pri := AddToBlock env mp (snd (TestForBlock env mp a it)) it\<rparr>)
           else Continue (fold requeue_child (setEntries_of (GetMemPoolChildren mp it))
                            (s1\<lparr>asm_pri := AddToBlock env mp (snd (TestForBlock env mp a it)) it\<rparr>)))
        else Continue (s1\<lparr>asm_pri := snd (TestForBlock env mp a it)\<rparr>))"
  by (cases "vecPriority s")
     (simp_all add: addPriorityTxs_body_def Let_def case_prod_beta pri_top_def pri_popped_def)

lemma asm_pri_requeue: "asm_pri (fold requeue_child cs s) = asm_pri s"
  by (induction cs arbitrary: s) (simp_all add: requeue_child_def split: option.splits)

lemma asm_package_failed [simp]: "asm (package_failed s it f) = asm s"
  by (simp add: package_failed_def)

lemma AddPackage_preserves:
  assumes "\<And>a it. P a \<Longrightarrow> P (AddToBlock env mp a it)" "P a"
  shows "P (AddPackage env mp pkg a)"
  using assms(2) unfolding AddPackage_def
  by (induction pkg arbitrary: a) (simp_all add: assms(1))

text \<open>A property of the assembler that every AddToBlock keeps is kept by addPackageTxs.\<close>

lemma addPackageTxs_preserves:
  assumes run: "addPackageTxs fuel env mp a = Some (Inr a')"
    and P: "P a"
    and add: "\<And>a it. P a \<Longrightarrow> P (AddToBlock env mp a it)"
  shows "P a'"
proof (rule iterate_Inr_induct [OF run [unfolded addPackageTxs_def], where I = "\<lambda>s. P (asm s)" and Q = P])
  show "P (asm \<lparr>mi = ancestor_score mp, mapModifiedTx = UpdatePackagesForAdded mp (inBlock a) [],
      failedTx = [], asm = a\<rparr>)" using P by simp
next
  fix s s' assume I: "P (asm s)" and b: "addPackageTxs_body env mp s = Continue s'"
  have cand: "P (asm s'')" if "addPackageTxs_candidate env mp s0 it modit = Continue s''" "asm s0 = asm s"
    for s0 s'' it modit
    using that I AddPackage_preserves [of P env mp, OF add]
    by (auto simp: candidate_result split: if_splits)
  from b show "P (asm s')"
  proof (cases rule: addPackageTxs_body_cases)
    case finished then show ?thesis by simp
  next
    case (skip it rest) with I show ?thesis by auto
  next
    case (fromMapTx it rest)
    then show ?thesis using cand [of "s\<lparr>mi := rest\<rparr>" it None s'] by simp
  next
    case (fromModified modit)
    then show ?thesis using cand [of s "iter modit" "Some modit" s'] by simp
  qed
next
  fix s r assume I: "P (asm s)" and b: "addPackageTxs_body env mp s = Break r"
  from b show "P r"
  proof (cases rule: addPackageTxs_body_cases)
    case finished with I show ?thesis by simp
  next
    case (skip it rest) then show ?thesis by simp
  next
    case (fromMapTx it rest)
    then show ?thesis using I by (auto simp: candidate_result split: if_splits)
  next
    case (fromModified modit)
    then show ?thesis using I by (auto simp: candidate_result split: if_splits)
  qed
qed

lemma addPriorityTxs_preserves:
  assumes run: "addPriorityTxs fuel env mp fPoS blockTime k a = Some (Inr (k', a'))"
    and P: "P a"
    and add: "\<And>a it. P a \<Longrightarrow> P (AddToBlock env mp a it)"
    and flags: "\<And>a l f. P a \<Longrightarrow> P (a\<lparr>lastFewTxs := l, blockFinished := f\<rparr>)"
    and acc: "\<And>a f. P a \<Longrightarrow> P (a\<lparr>fNeedSizeAccounting := f\<rparr>)"
  shows "P a'"
proof (cases "min (nBlockMaxSize a) (blockprioritysize env) = 0")
  case True
  with run P show ?thesis by (simp add: addPriorityTxs_def)
next
  case False
  define body where "body = addPriorityTxs_body env mp fPoS blockTime (min (nBlockMaxSize a) (blockprioritysize env))"
  define s0 where "s0 = \<lparr>vecPriority = map (\<lambda>m. (GetPriority mp m (nHeight a), m)) (mapTx mp),
       waitPriMap = [], nClock = k, asm_pri = a\<lparr>fNeedSizeAccounting := True\<rparr>\<rparr>"
  from run False obtain s where it: "iterate fuel body s0 = Some (Inr s)"
    and a': "a' = (asm_pri s)\<lparr>fNeedSizeAccounting := fNeedSizeAccounting a\<rparr>"
    by (auto simp: addPriorityTxs_def Let_def body_def s0_def split: option.splits sum.splits)
  have tfb: "P (snd (TestForBlock env mp b it))" if "P b" for b it
    using flags [OF that] TestForBlock_state [of env mp b it] by metis
  have "P (asm_pri s)"
  proof (rule iterate_Inr_induct [OF it, where I = "\<lambda>s. P (asm_pri s)"])
    show "P (asm_pri s0)" using acc [OF P] by (simp add: s0_def)
  next
    fix s s' assume "P (asm_pri s)" "body s = Continue s'"
    then show "P (asm_pri s')"
      unfolding body_def addPriorityTxs_body_result
      by (auto simp: Let_def pri_popped_def asm_pri_requeue tfb add split: if_splits)
  next
    fix s r assume "P (asm_pri s)" "body s = Break r"
    then show "P (asm_pri r)"
      unfolding body_def addPriorityTxs_body_result
      by (auto simp: Let_def pri_popped_def tfb add split: if_splits)
  qed
  with a' acc show ?thesis by simp
qed

section \<open>The run on the pool of three transactions\<close>

lemma iterate_Continue: "body s = Continue s' \<Longrightarrow> iterate (Suc n) body s = iterate n body s'"
  by simp

lemma iterate_Break: "body s = Break r \<Longrightarrow> iterate (Suc n) body s = Some (Inr r)"
  by simp

lemma AddToBlock_sel:
  "inBlock (AddToBlock env mp a it) = set_insert it (inBlock a)"
  "nBlockWeight (AddToBlock env mp a it) = nBlockWeight a + GetTxWeight (deref mp it)"
  "nBlockSize (AddToBlock env mp a it) =
     (if fNeedSizeAccounting a then nBlockSize a + GetSerializeSize env (GetTx (deref mp it))
      else nBlockSize a)"
  "nBlockSigOpsCost (AddToBlock env mp a it) = nBlockSigOpsCost a + GetSigOpCost (deref mp it)"
  "nFees (AddToBlock env mp a it) = nFees a + GetFee (deref mp it)"
  "nBlockTx (AddToBlock env mp a it) = nBlockTx a + 1"
  "nBlockMaxWeight (AddToBlock env mp a it) = nBlockMaxWeight a"
  "nBlockMaxSize (AddToBlock env mp a it) = nBlockMaxSize a"
  "fNeedSizeAccounting (AddToBlock env mp a it) = fNeedSizeAccounting a"
  "nHeight (AddToBlock env mp a it) = nHeight a"
  "nLockTimeCutoff (AddToBlock env mp a it) = nLockTimeCutoff a"
  "lastFewTxs (AddToBlock env mp a it) = lastFewTxs a"
  "blockFinished (AddToBlock env mp a it) = blockFinished a"
  "fIncludeWitness (AddToBlock env mp a it) = fIncludeWitness a"
  "vtx (block (pblocktemplate (AddToBlock env mp a it)))
     = vtx (block (pblocktemplate a)) @ [GetTx (deref mp it)]"
  "vTxFees (pblocktemplate (AddToBlock env mp a it)) = vTxFees (pblocktemplate a) @ [GetFee (deref mp it)]"
  "vTxSigOpsCost (pblocktemplate (AddToBlock env mp a it))
     = vTxSigOpsCost (pblocktemplate a) @ [GetSigOpCost (deref mp it)]"
  by (simp_all add: AddToBlock_def Let_def)

lemma ex_mp_sel:
  "mapTx ex_mp = [11, 12, 13]" "ancestor_score ex_mp = [13, 11, 12]"
  "deref ex_mp h = (if h = 11 then ex_entry 11 2000 0 1000 1 100 1000
                   else if h = 12 then ex_entry 12 900 0 100 1 100 100
                   else ex_entry h 900 1 5000 3 300 6100)"
  "GetMemPoolParents ex_mp h = (if h = 13 then [11, 12] else [])"
  "GetMemPoolChildren ex_mp h = (if h = 11 \<or> h = 12 then [13] else [])"
  "CalculateDescendants ex_mp h = (if h = 11 \<or> h = 12 then [h, 13] else [h])"
  "CalculateMemPoolAncestors ex_mp h = (if h = 13 then [11, 12] else [])"
  "GetPriority ex_mp h n = (if h = 11 then 10 else if h = 12 then 1 else 20)"
  by (simp_all add: ex_mp_def)

lemma ex_entry_sel:
  "GetTx (ex_entry h t lt fee cnt sizeAnc feesAnc) = ex_tx h t lt"
  "GetFee (ex_entry h t lt fee cnt sizeAnc feesAnc) = fee"
  "GetModifiedFee (ex_entry h t lt fee cnt sizeAnc feesAnc) = fee"
  "GetTxSize (ex_entry h t lt fee cnt sizeAnc feesAnc) = 100"
  "GetTxWeight (ex_entry h t lt fee cnt sizeAnc feesAnc) = 400"
  "GetSigOpCost (ex_entry h t lt fee cnt sizeAnc feesAnc) = 4"
  "GetCountWithAncestors (ex_entry h t lt fee cnt sizeAnc feesAnc) = cnt"
  "GetSizeWithAncestors (ex_entry h t lt fee cnt sizeAnc feesAnc) = sizeAnc"
  "GetModFeesWithAncestors (ex_entry h t lt fee cnt sizeAnc feesAnc) = feesAnc"
  "GetSigOpCostWithAncestors (ex_entry h t lt fee cnt sizeAnc feesAnc) = 4 * int cnt"
  "hash (ex_tx h t lt) = h" "nTime (ex_tx h t lt) = t" "nLockTime (ex_tx h t lt) = lt"
  "wit_IsNull (ex_tx h t lt)"
  by (simp_all add: ex_entry_def ex_tx_def)

lemma ex_env_sel:
  "MAX_BLOCK_SIGOPS_COST ex_env = 80000" "BLOCK_LIMITER_TIME ex_env = 10"
  "blockprioritysize ex_env = 1100" "GetAdjustedTime ex_env k = 1000"
  "new_CBlockTemplate_ok ex_env"
  "IsFinalTx ex_env tx h c = (nLockTime tx = 0)" "GetSerializeSize ex_env tx = 100"
  "minRelayTxFee_GetFee ex_env n = int n" "AllowFree ex_env p = (5 < p)"
  "CompareModifiedEntry ex_env x y = (nModFeesWithAncestors x * int (nSizeWithAncestors y)
                                     > nModFeesWithAncestors y * int (nSizeWithAncestors x)
                                    \<or> (nModFeesWithAncestors x * int (nSizeWithAncestors y)
                                         = nModFeesWithAncestors y * int (nSizeWithAncestors x)
                                        \<and> iter x < iter y))"
  "pricomparer ex_env u v = (fst u < fst v \<or> (fst u = fst v \<and> snd u < snd v))"
  by (simp_all add: ex_env_def)

lemma ex_a1_sel:
  "inBlock ex_a1 = []" "nBlockWeight ex_a1 = 4000" "nBlockSize ex_a1 = 1000"
  "nBlockSigOpsCost ex_a1 = 400" "nFees ex_a1 = 0" "nBlockTx ex_a1 = 0"
  "nBlockMaxWeight ex_a1 = 3000000" "nBlockMaxSize ex_a1 = 750000" "fNeedSizeAccounting ex_a1"
  "nHeight ex_a1 = 11" "nLockTimeCutoff ex_a1 = 800" "lastFewTxs ex_a1 = 0"
  "\<not> blockFinished ex_a1" "fIncludeWitness ex_a1"
  "vtx (block (pblocktemplate ex_a1)) = [ex_tx 0 0 0]"
  "vTxFees (pblocktemplate ex_a1) = [-1]" "vTxSigOpsCost (pblocktemplate ex_a1) = [-1]"
  by (simp_all add: ex_a1_def CreateNewBlock_start_def resetBlock_def ex_asm_def
      BlockAssembler_ctor_def BlockAssembler_limits_def WITNESS_SCALE_FACTOR_def Let_def
      CBlockTemplate_new_def CBlock_null_def ex_env_def ex_tip_def)

lemma ex_a2_sel:
  "inBlock ex_a2 = [12]" "nBlockWeight ex_a2 = 4400" "nBlockSize ex_a2 = 1100"
  "nBlockSigOpsCost ex_a2 = 404" "nFees ex_a2 = 100" "nBlockTx ex_a2 = 1"
  "nBlockMaxWeight ex_a2 = 3000000" "nBlockMaxSize ex_a2 = 750000" "fNeedSizeAccounting ex_a2"
  "nHeight ex_a2 = 11" "nLockTimeCutoff ex_a2 = 800" "lastFewTxs ex_a2 = 0"
  "\<not> blockFinished ex_a2" "fIncludeWitness ex_a2"
  "vtx (block (pblocktemplate ex_a2)) = [ex_tx 0 0 0, ex_tx 12 900 0]"
  "vTxFees (pblocktemplate ex_a2) = [-1, 100]" "vTxSigOpsCost (pblocktemplate ex_a2) = [-1, 4]"
  by (simp_all add: ex_a2_def AddToBlock_sel ex_a1_sel ex_mp_sel ex_entry_sel ex_env_sel set_insert_def)

lemma ex_a3_sel:
  "inBlock ex_a3 = [11, 12]" "nBlockWeight ex_a3 = 4800" "nBlockSize ex_a3 = 1200"
  "nBlockSigOpsCost ex_a3 = 408" "nFees ex_a3 = 1100" "nBlockTx ex_a3 = 2"
  "nBlockMaxWeight ex_a3 = 3000000" "nBlockMaxSize ex_a3 = 750000" "fNeedSizeAccounting ex_a3"
  "nHeight ex_a3 = 11" "nLockTimeCutoff ex_a3 = 800" "lastFewTxs ex_a3 = 0"
  "\<not> blockFinished ex_a3" "fIncludeWitness ex_a3"
  "vtx (block (pblocktemplate ex_a3)) = [ex_tx 0 0 0, ex_tx 12 900 0, ex_tx 11 2000 0]"
  "vTxFees (pblocktemplate ex_a3) = [-1, 100, 1000]" "vTxSigOpsCost (pblocktemplate ex_a3) = [-1, 4, 4]"
  by (simp_all add: ex_a3_def AddToBlock_sel ex_a2_sel ex_mp_sel ex_entry_sel ex_env_sel set_insert_def)

lemmas ex_pri_eval = addPriorityTxs_body_result ex_pri_def pri_top_def pri_popped_def Let_def
  ex_mp_sel ex_entry_sel ex_env_sel ex_a1_sel isStillDependent_def setEntries_of_def
  waitPriMap_insert_def TestForBlock_def AddToBlock_sel sub_u32_def

lemma ex_pri_step1:
  "addPriorityTxs_body ex_env ex_mp False 0 1100
     (ex_pri [(10, 11), (1, 12), (20, 13)] [] 1 (ex_a1\<lparr>fNeedSizeAccounting := True\<rparr>))
   = Continue (ex_pri [(10, 11), (1, 12)] [(13, 20)] 2 (ex_a1\<lparr>fNeedSizeAccounting := True\<rparr>))"
  by (simp add: ex_pri_eval)

lemma ex_pri_step2:
  "addPriorityTxs_body ex_env ex_mp False 0 1100
     (ex_pri [(10, 11), (1, 12)] [(13, 20)] 2 (ex_a1\<lparr>fNeedSizeAccounting := True\<rparr>))
   = Continue (ex_pri [(1, 12)] [(13, 20)] 3 (ex_a1\<lparr>fNeedSizeAccounting := True\<rparr>))"
  by (simp add: ex_pri_eval)

lemma ex_pri_step3:
  "addPriorityTxs_body ex_env ex_mp False 0 1100
     (ex_pri [(1, 12)] [(13, 20)] 3 (ex_a1\<lparr>fNeedSizeAccounting := True\<rparr>))
   = Break (ex_pri [] [(13, 20)] 4 (AddToBlock ex_env ex_mp (ex_a1\<lparr>fNeedSizeAccounting := True\<rparr>) 12))"
  by (simp add: ex_pri_eval)

lemma ex_fuel_Suc: "ex_fuel = Suc (Suc (Suc (Suc (Suc (Suc 0)))))"
  by (simp add: ex_fuel_def)

lemma ex_addPriorityTxs:
  "addPriorityTxs ex_fuel ex_env ex_mp False 0 1 ex_a1 = Some (Inr (4, ex_a2))"
proof -
  have "iterate ex_fuel (addPriorityTxs_body ex_env ex_mp False 0 1100)
          (ex_pri [(10, 11), (1, 12), (20, 13)] [] 1 (ex_a1\<lparr>fNeedSizeAccounting := True\<rparr>))
        = Some (Inr (ex_pri [] [(13, 20)] 4 (AddToBlock ex_env ex_mp (ex_a1\<lparr>fNeedSizeAccounting := True\<rparr>) 12)))"
    unfolding ex_fuel_Suc
    by (simp only: iterate.simps ex_pri_step1 ex_pri_step2 ex_pri_step3 step.case)
  then show ?thesis
    by (simp add: addPriorityTxs_def Let_def ex_a1_sel ex_env_sel ex_mp_sel ex_pri_def ex_a2_def)
qed

lemmas ex_pkg_eval = addPackageTxs_body_def candidate_result ex_pkg_def ex_mod_def SkipMapTxEntry_def
  mm_find_def package_fees_def package_size_def package_sigops_def ex_mp_sel ex_entry_sel ex_env_sel
  TestPackage_def TestPackageTransactions_def package_of_def onlyUnconfirmed_def setEntries_of_def
  set_insert_def WITNESS_SCALE_FACTOR_def package_failed_def Let_def mm_erase_def
  CTxMemPoolModifiedEntry_of_def

lemma ex_UpdatePackagesForAdded_2:
  "UpdatePackagesForAdded ex_mp [12] [] = [ex_mod 200 6000]"
  by (simp add: UpdatePackagesForAdded_def UpdatePackagesForAdded_desc_def setEntries_of_def
      ex_mp_sel ex_entry_sel mm_find_def mm_insert_def CTxMemPoolModifiedEntry_of_def ex_mod_def)

lemma ex_UpdatePackagesForAdded_1:
  "UpdatePackagesForAdded ex_mp [11] [] = [ex_mod 200 5100]"
  by (simp add: UpdatePackagesForAdded_def UpdatePackagesForAdded_desc_def setEntries_of_def
      ex_mp_sel ex_entry_sel mm_find_def mm_insert_def CTxMemPoolModifiedEntry_of_def ex_mod_def)

lemma ex_pkg_step1:
  "addPackageTxs_body ex_env ex_mp (ex_pkg [13, 11, 12] [ex_mod 200 6000] [] ex_a2)
   = Continue (ex_pkg [11, 12] [ex_mod 200 6000] [] ex_a2)"
  by (simp add: ex_pkg_eval ex_a2_sel)

lemma ex_pkg_step2:
  "addPackageTxs_body ex_env ex_mp (ex_pkg [11, 12] [ex_mod 200 6000] [] ex_a2)
   = Continue (ex_pkg [11, 12] [] [13] ex_a2)"
  by (simp add: ex_pkg_eval ex_a2_sel)

lemma ex_pkg_step3:
  "addPackageTxs_body ex_env ex_mp (ex_pkg [11, 12] [] [13] ex_a2)
   = Continue (ex_pkg [12] [ex_mod 200 5100] [13] ex_a3)"
  by (simp add: ex_pkg_eval ex_a2_sel SortForBlock_def AddPackage_def ex_a3_def
      ex_UpdatePackagesForAdded_1 [unfolded ex_mod_def])

lemma ex_pkg_step4:
  "addPackageTxs_body ex_env ex_mp (ex_pkg [12] [ex_mod 200 5100] [13] ex_a3)
   = Continue (ex_pkg [] [ex_mod 200 5100] [13] ex_a3)"
  by (simp add: ex_pkg_eval ex_a3_sel)

lemma ex_pkg_step5:
  "addPackageTxs_body ex_env ex_mp (ex_pkg [] [ex_mod 200 5100] [13] ex_a3)
   = Continue (ex_pkg [] [] [13] ex_a3)"
  by (simp add: ex_pkg_eval ex_a3_sel)

lemma ex_pkg_step6:
  "addPackageTxs_body ex_env ex_mp (ex_pkg [] [] [13] ex_a3) = Break ex_a3"
  by (simp add: ex_pkg_eval ex_a3_sel)

lemma ex_addPackageTxs:
  "addPackageTxs ex_fuel ex_env ex_mp ex_a2 = Some (Inr ex_a3)"
  unfolding addPackageTxs_def ex_a2_sel ex_mp_sel ex_UpdatePackagesForAdded_2 ex_pkg_def [symmetric]
    ex_fuel_Suc
  by (simp only: iterate.simps ex_pkg_step1 ex_pkg_step2 ex_pkg_step3 ex_pkg_step4 ex_pkg_step5
      ex_pkg_step6 step.case)

lemma finish_reward:
  "snd (CreateNewBlock_finish env pindexPrev script fPoS pStakeReward k a) =
     (if fPoS then Some (nFees a + GetProofOfStakeReward env (nHeight a)) else pStakeReward)"
  by (simp add: CreateNewBlock_finish_def Let_def)

lemma ex_CreateNewBlock:
  "CreateNewBlock ex_fuel ex_env ex_mp ex_tip ex_asm [] False None True
     = Some (Inr (Some ex_t, None, ex_a3\<lparr>pblocktemplate := ex_t\<rparr>))"
proof -
  have fin: "CreateNewBlock_finish ex_env ex_tip [] False None 4 ex_a3 = (ex_t, None)"
    using finish_reward [of ex_env ex_tip "[]" False None 4 ex_a3]
    by (simp add: ex_t_def prod_eq_iff)
  show ?thesis
    unfolding CreateNewBlock_def ex_a1_def [symmetric] Let_def new_CBlockTemplate_def
    by (simp add: ex_env_sel ex_a1_sel ex_entry_sel ex_addPriorityTxs [unfolded One_nat_def]
        ex_addPackageTxs fin)
qed

section \<open>The template vectors\<close>

lemma CreateNewBlock_SomeE:
  assumes "CreateNewBlock fuel env mp pindexPrev a0 script fPoS pStakeReward fWit = Some (Inr (Some t, reward, a))"
  obtains k a2 a3 where
    "\<not> (fPoS \<and> pStakeReward = None)" "new_CBlockTemplate_ok env"
    "addPriorityTxs fuel env mp fPoS
       (nTime (vtx (block (pblocktemplate (CreateNewBlock_start env pindexPrev fWit (resetBlock a0)))) ! 0))
       1 (CreateNewBlock_start env pindexPrev fWit (resetBlock a0)) = Some (Inr (k, a2))"
    "addPackageTxs fuel env mp a2 = Some (Inr a3)"
    "CreateNewBlock_finish env pindexPrev script fPoS pStakeReward k a3 = (t, reward)"
    "a = a3\<lparr>pblocktemplate := t\<rparr>"
  using assms
  by (auto simp: CreateNewBlock_def new_CBlockTemplate_def Let_def
      split: if_splits option.splits sum.splits prod.splits)

lemma selection_preserves:
  assumes pri: "addPriorityTxs fuel env mp fPoS blockTime k a1 = Some (Inr (k', a2))"
    and pkg: "addPackageTxs fuel env mp a2 = Some (Inr a3)"
    and P: "P a1"
    and add: "\<And>a it. P a \<Longrightarrow> P (AddToBlock env mp a it)"
    and flags: "\<And>a l f. P a \<Longrightarrow> P (a\<lparr>lastFewTxs := l, blockFinished := f\<rparr>)"
    and acc: "\<And>a f. P a \<Longrightarrow> P (a\<lparr>fNeedSizeAccounting := f\<rparr>)"
  shows "P a3"
proof -
  have "P a2" by (rule addPriorityTxs_preserves [where P = P, OF pri P add flags acc])
  then show ?thesis by (rule addPackageTxs_preserves [where P = P, OF pkg _ add])
qed

lemma vectors_aligned_start:
  "vectors_aligned (CreateNewBlock_start env pindexPrev fWit (resetBlock a0))"
  by (simp add: vectors_aligned_def CreateNewBlock_start_def resetBlock_def Let_def
      CBlockTemplate_new_def CBlock_null_def)

lemma vectors_aligned_AddToBlock:
  "vectors_aligned a \<Longrightarrow> vectors_aligned (AddToBlock env mp a it)"
  by (simp add: vectors_aligned_def AddToBlock_def Let_def)

lemma AddToBlock_lengths:
  "length (vtx (block (pblocktemplate (AddToBlock env mp a it)))) = length (vtx (block (pblocktemplate a))) + 1"
  "length (vTxFees (pblocktemplate (AddToBlock env mp a it))) = length (vTxFees (pblocktemplate a)) + 1"
  "length (vTxSigOpsCost (pblocktemplate (AddToBlock env mp a it))) = length (vTxSigOpsCost (pblocktemplate a)) + 1"
  "nBlockTx (AddToBlock env mp a it) = nBlockTx a + 1"
  by (simp_all add: AddToBlock_def Let_def)

lemma finish_lengths:
  assumes "CreateNewBlock_finish env pindexPrev script fPoS pStakeReward k a = (t, reward)"
  shows "length (vtx (block t)) = length (vtx (block (pblocktemplate a)))"
    "length (vTxFees t) = length (vTxFees (pblocktemplate a))"
    "length (vTxSigOpsCost t) = length (vTxSigOpsCost (pblocktemplate a))"
  using assms
  by (auto simp: CreateNewBlock_finish_def Let_def UpdateTime_def)

text \<open>
  Claim C9. The vectors \<open>vtx\<close>, \<open>vTxFees\<close> and \<open>vTxSigOpsCost\<close> have equal length
  throughout: after the dummy coinbase entries are pushed each has one element and
  \<open>nBlockTx\<close> is zero, every \<open>AddToBlock\<close> appends one element to each and adds one to
  \<open>nBlockTx\<close>, and in the returned template each has \<open>nBlockTx + 1\<close> elements.
\<close>

theorem parallel_vectors:
  assumes run: "CreateNewBlock fuel env mp pindexPrev a0 script fPoS pStakeReward fWit
                  = Some (Inr (Some t, reward, a))"
  shows "vectors_aligned (CreateNewBlock_start env pindexPrev fWit (resetBlock a0))
       \<and> nBlockTx (CreateNewBlock_start env pindexPrev fWit (resetBlock a0)) = 0
       \<and> length (vtx (block (pblocktemplate (AddToBlock env mp b it))))
           = length (vtx (block (pblocktemplate b))) + 1
       \<and> length (vTxFees (pblocktemplate (AddToBlock env mp b it)))
           = length (vTxFees (pblocktemplate b)) + 1
       \<and> length (vTxSigOpsCost (pblocktemplate (AddToBlock env mp b it)))
           = length (vTxSigOpsCost (pblocktemplate b)) + 1
       \<and> nBlockTx (AddToBlock env mp b it) = nBlockTx b + 1
       \<and> length (vtx (block t)) = nBlockTx a + 1
       \<and> length (vTxFees t) = nBlockTx a + 1
       \<and> length (vTxSigOpsCost t) = nBlockTx a + 1"
proof -
  from run obtain k a2 a3 where
    pri: "addPriorityTxs fuel env mp fPoS
       (nTime (vtx (block (pblocktemplate (CreateNewBlock_start env pindexPrev fWit (resetBlock a0)))) ! 0))
       1 (CreateNewBlock_start env pindexPrev fWit (resetBlock a0)) = Some (Inr (k, a2))"
    and pkg: "addPackageTxs fuel env mp a2 = Some (Inr a3)"
    and fin: "CreateNewBlock_finish env pindexPrev script fPoS pStakeReward k a3 = (t, reward)"
    and a: "a = a3\<lparr>pblocktemplate := t\<rparr>"
    by (rule CreateNewBlock_SomeE)
  have "vectors_aligned a3"
    by (rule selection_preserves [where P = vectors_aligned, OF pri pkg vectors_aligned_start
          vectors_aligned_AddToBlock])
       (simp_all add: vectors_aligned_def)
  with finish_lengths [OF fin] a
  have "length (vtx (block t)) = nBlockTx a + 1 \<and> length (vTxFees t) = nBlockTx a + 1
        \<and> length (vTxSigOpsCost t) = nBlockTx a + 1"
    by (simp add: vectors_aligned_def)
  moreover have "nBlockTx (CreateNewBlock_start env pindexPrev fWit (resetBlock a0)) = 0"
    by (simp add: CreateNewBlock_start_def resetBlock_def Let_def)
  ultimately show ?thesis
    using vectors_aligned_start [of env pindexPrev fWit a0] AddToBlock_lengths [of env mp b it]
    by simp
qed

theorem parallel_vectors_witness:
  "CreateNewBlock ex_fuel ex_env ex_mp ex_tip ex_asm [] False None True
     = Some (Inr (Some ex_t, None, ex_a3\<lparr>pblocktemplate := ex_t\<rparr>))
   \<and> length (vtx (block ex_t)) = 3 \<and> length (vTxFees ex_t) = 3
   \<and> length (vTxSigOpsCost ex_t) = 3"
  using parallel_vectors [OF ex_CreateNewBlock] ex_CreateNewBlock
  by (simp add: ex_a3_sel)

section \<open>Fees and coinbase\<close>

lemma fees_recorded_start:
  "fees_recorded mp (nHeight_idx pindexPrev + 1) (CreateNewBlock_start env pindexPrev fWit (resetBlock a0))"
  by (simp add: fees_recorded_def CreateNewBlock_start_def resetBlock_def Let_def
      CBlockTemplate_new_def CBlock_null_def)

lemma fees_recorded_AddToBlock:
  assumes "\<And>h. hash (GetTx (deref mp h)) = h" "fees_recorded mp h a"
  shows "fees_recorded mp h (AddToBlock env mp a it)"
  using assms by (simp add: fees_recorded_def AddToBlock_sel)

lemma tl_list_update_0: "tl (xs[0 := v]) = tl xs"
  by (cases xs) simp_all

lemma vtx_UpdateTime: "vtx (snd (UpdateTime blt adj b p)) = vtx b"
  by (simp add: UpdateTime_def Let_def)

lemma finish_fees:
  assumes "CreateNewBlock_finish env pindexPrev script fPoS pStakeReward k a = (t, reward)"
  shows "vTxFees t = (vTxFees (pblocktemplate a))[0 := - nFees a]"
    and "tl (vtx (block t)) = tl (vtx (block (pblocktemplate a)))"
    and "vtx (block (pblocktemplate a)) \<noteq> [] \<Longrightarrow>
         vout (vtx (block t) ! 0) =
           [if fPoS then \<lparr>nValue = 0, scriptPubKey = []\<rparr>
            else \<lparr>nValue = nFees a + GetBlockSubsidy env (nHeight a), scriptPubKey = script\<rparr>]"
    and "reward = (if fPoS then Some (nFees a + GetProofOfStakeReward env (nHeight a)) else pStakeReward)"
  using assms
  by (auto simp: CreateNewBlock_finish_def Let_def vtx_UpdateTime tl_list_update_0 CTransaction_of_def)

text \<open>
  Claim C4. In a returned template \<open>vTxFees[0]\<close> is \<open>- nFees\<close>, and \<open>nFees\<close> is the sum
  of the other fee entries, which are the fees of the mempool entries of the transactions
  after the coinbase. For proof of work the coinbase has the single output
  \<open>nFees + GetBlockSubsidy(nHeight)\<close> to the given script; for proof of stake it has a
  single output with empty script and value zero, and the reward handed back is
  \<open>nFees + GetProofOfStakeReward(nHeight)\<close>. An iterator is the hash of its transaction.
\<close>

theorem coinbase_fees:
  assumes run: "CreateNewBlock fuel env mp pindexPrev a0 script fPoS pStakeReward fWit
                  = Some (Inr (Some t, reward, a))"
    and ids: "\<And>h. hash (GetTx (deref mp h)) = h"
  shows "vTxFees t ! 0 = - nFees a
       \<and> nFees a = sum_list (tl (vTxFees t))
       \<and> tl (vTxFees t) = map (\<lambda>tx. GetFee (deref mp (hash tx))) (tl (vtx (block t)))
       \<and> vout (vtx (block t) ! 0) =
           [if fPoS then \<lparr>nValue = 0, scriptPubKey = []\<rparr>
            else \<lparr>nValue = nFees a + GetBlockSubsidy env (nHeight_idx pindexPrev + 1),
                  scriptPubKey = script\<rparr>]
       \<and> reward = (if fPoS then Some (nFees a + GetProofOfStakeReward env (nHeight_idx pindexPrev + 1))
                   else pStakeReward)"
proof -
  from run obtain k a2 a3 where
    pri: "addPriorityTxs fuel env mp fPoS
       (nTime (vtx (block (pblocktemplate (CreateNewBlock_start env pindexPrev fWit (resetBlock a0)))) ! 0))
       1 (CreateNewBlock_start env pindexPrev fWit (resetBlock a0)) = Some (Inr (k, a2))"
    and pkg: "addPackageTxs fuel env mp a2 = Some (Inr a3)"
    and fin: "CreateNewBlock_finish env pindexPrev script fPoS pStakeReward k a3 = (t, reward)"
    and a: "a = a3\<lparr>pblocktemplate := t\<rparr>"
    by (rule CreateNewBlock_SomeE)
  have inv: "fees_recorded mp (nHeight_idx pindexPrev + 1) a3"
    by (rule selection_preserves [where P = "fees_recorded mp (nHeight_idx pindexPrev + 1)",
          OF pri pkg fees_recorded_start fees_recorded_AddToBlock [OF ids]])
       (simp_all add: fees_recorded_def)
  have nf: "nFees a = nFees a3" using a by simp
  from inv have ne: "vTxFees (pblocktemplate a3) \<noteq> []" "vtx (block (pblocktemplate a3)) \<noteq> []"
    and h: "nHeight a3 = nHeight_idx pindexPrev + 1"
    and sum: "nFees a3 = sum_list (tl (vTxFees (pblocktemplate a3)))"
    and m: "tl (vTxFees (pblocktemplate a3))
          = map (\<lambda>tx. GetFee (deref mp (hash tx))) (tl (vtx (block (pblocktemplate a3))))"
    by (simp_all add: fees_recorded_def)
  have 1: "vTxFees t ! 0 = - nFees a"
    using finish_fees(1) [OF fin] ne(1) nf by simp
  have 2: "nFees a = sum_list (tl (vTxFees t))"
    using finish_fees(1) [OF fin] sum nf by (simp add: tl_list_update_0)
  have 3: "tl (vTxFees t) = map (\<lambda>tx. GetFee (deref mp (hash tx))) (tl (vtx (block t)))"
    using finish_fees(1,2) [OF fin] m by (simp add: tl_list_update_0)
  have 4: "vout (vtx (block t) ! 0) =
           [if fPoS then \<lparr>nValue = 0, scriptPubKey = []\<rparr>
            else \<lparr>nValue = nFees a + GetBlockSubsidy env (nHeight_idx pindexPrev + 1),
                  scriptPubKey = script\<rparr>]"
    using finish_fees(3) [OF fin ne(2)] h nf by simp
  have 5: "reward = (if fPoS then Some (nFees a + GetProofOfStakeReward env (nHeight_idx pindexPrev + 1))
                   else pStakeReward)"
    using finish_fees(4) [OF fin] h nf by simp
  from 1 2 3 4 5 show ?thesis by simp
qed

lemma ex_ids: "hash (GetTx (deref ex_mp h)) = h"
  by (simp add: ex_mp_sel ex_entry_sel)

theorem coinbase_fees_witness:
  "CreateNewBlock ex_fuel ex_env ex_mp ex_tip ex_asm [] False None True
     = Some (Inr (Some ex_t, None, ex_a3\<lparr>pblocktemplate := ex_t\<rparr>))
   \<and> (\<forall>h. hash (GetTx (deref ex_mp h)) = h)
   \<and> vTxFees ex_t ! 0 = - 1100
   \<and> tl (vTxFees ex_t) = [100, 1000]
   \<and> vout (vtx (block ex_t) ! 0) = [\<lparr>nValue = 1150, scriptPubKey = []\<rparr>]"
  using coinbase_fees [OF ex_CreateNewBlock ex_ids] ex_CreateNewBlock ex_ids
    finish_fees(1) [of ex_env ex_tip "[]" False None 4 ex_a3 ex_t None]
  by (simp add: ex_a3_sel ex_env_def ex_tip_def ex_t_def prod_eq_iff finish_reward)

section \<open>SignBlock and the timestamps of the signed block\<close>











section \<open>A proof-of-work template with a transaction from the future\<close>

lemma AddToBlock_header:
  "nTime_blk (block (pblocktemplate (AddToBlock env mp a it))) = nTime_blk (block (pblocktemplate a))"
  by (simp add: AddToBlock_def Let_def)

lemma ex_header_time: "nTime_blk (block (pblocktemplate ex_a3)) = 1000"
  by (simp add: ex_a3_def ex_a2_def AddToBlock_header ex_a1_def CreateNewBlock_start_def Let_def
      ex_env_def)

lemma ex_t_sel:
  "nTime_blk (block ex_t) = 1000"
  "vtx (block ex_t) = [CTransaction_of ex_env
        \<lparr>hash = 0, nTime = 1000,
         vin = [\<lparr>prevout_IsNull = True, scriptSig = [ScriptNum 11, OP_0]\<rparr>],
         vout = [\<lparr>nValue = 1150, scriptPubKey = []\<rparr>], nLockTime = 0, wit_IsNull = True\<rparr>,
      ex_tx 12 900 0, ex_tx 11 2000 0]"
  by (simp_all add: ex_t_def CreateNewBlock_finish_def Let_def UpdateTime_def ex_a3_sel
      ex_header_time ex_env_def ex_tip_def)

text \<open>
  Claim C5, at a proof-of-work template. The clock reads 1000 throughout and transaction
  11 of the pool is stamped 2000. The priority phase passes it over for its timestamp;
  the selection by ancestor fee rate, which does not look at timestamps, adds it. The
  template is returned with the header time 1000 and the transaction at index 2.
\<close>

theorem CreateNewBlock_pow_future_transaction:
  "CreateNewBlock ex_fuel ex_env ex_mp ex_tip ex_asm [] False None True
     = Some (Inr (Some ex_t, None, ex_a3\<lparr>pblocktemplate := ex_t\<rparr>))
   \<and> uint (nTime_blk (block ex_t)) = 1000
   \<and> vtx (block ex_t) ! 2 = GetTx (deref ex_mp 11)
   \<and> uint (nTime (vtx (block ex_t) ! 2)) = 2000
   \<and> nTime (vtx (block ex_t) ! 2) > nTime_blk (block ex_t)"
  using ex_CreateNewBlock by (simp add: ex_t_sel ex_mp_sel ex_entry_sel)

section \<open>One call of UpdatePackagesForAdded\<close>

lemma mm_find_Some_iter: "mm_find e mm = Some m \<Longrightarrow> iter m = e"
  by (auto simp: mm_find_def dest: find_Some_iff [THEN iffD1])

lemma mm_find_append:
  "mm_find e (mm @ [m]) = (case mm_find e mm of Some x \<Rightarrow> Some x
                             | None \<Rightarrow> if iter m = e then Some m else None)"
  by (induction mm) (auto simp: mm_find_def)

lemma mm_find_modify:
  assumes "\<And>m. iter (f m) = iter m"
  shows "mm_find e (mm_modify k f mm) =
           (if e = k then map_option f (mm_find e mm) else mm_find e mm)"
  using assms by (induction mm) (auto simp: mm_find_def mm_modify_def)

lemma mm_find_erase:
  "mm_find e (mm_erase k mm) = (if e = k then None else mm_find e mm)"
  by (induction mm) (auto simp: mm_find_def mm_erase_def)

lemma iter_update_for_parent_inclusion [simp]:
  "iter (update_for_parent_inclusion p m) = iter m"
  by (simp add: update_for_parent_inclusion_def)

text \<open>One descendant: the entry is created or updated, and in both cases the parent's own
  size, modified fee and sigop cost are taken off once.\<close>

lemma mm_find_UpdatePackagesForAdded_desc:
  "mm_find e (UpdatePackagesForAdded_desc mp A it d mm) =
     (if e = d \<and> d \<notin> set A
      then Some (update_for_parent_inclusion (deref mp it)
                   (case mm_find e mm of None \<Rightarrow> CTxMemPoolModifiedEntry_of mp e | Some m \<Rightarrow> m))
      else mm_find e mm)"
proof (cases "d \<in> set A")
  case True
  then show ?thesis by (simp add: UpdatePackagesForAdded_desc_def)
next
  case False
  show ?thesis
  proof (cases "mm_find d mm")
    case None
    with False show ?thesis
      by (auto simp: UpdatePackagesForAdded_desc_def Let_def mm_insert_def mm_find_append
          CTxMemPoolModifiedEntry_of_def update_for_parent_inclusion_def split: option.splits)
  next
    case (Some m)
    with False show ?thesis
      by (auto simp: UpdatePackagesForAdded_desc_def mm_find_modify)
  qed
qed

lemma mm_find_fold_desc:
  assumes "distinct ds"
  shows "mm_find e (fold (UpdatePackagesForAdded_desc mp A it) ds mm) =
     (if e \<in> set ds \<and> e \<notin> set A
      then Some (update_for_parent_inclusion (deref mp it)
                   (case mm_find e mm of None \<Rightarrow> CTxMemPoolModifiedEntry_of mp e | Some m \<Rightarrow> m))
      else mm_find e mm)"
  using assms
proof (induction ds arbitrary: mm)
  case Nil
  then show ?case by simp
next
  case (Cons d ds)
  then show ?case
    by (auto simp: mm_find_UpdatePackagesForAdded_desc)
qed

lemma distinct_setEntries_of [simp]: "distinct (setEntries_of xs)"
  by (simp add: setEntries_of_def)

lemma set_setEntries_of [simp]: "set (setEntries_of xs) = set xs"
  by (simp add: setEntries_of_def)

lemma mm_find_fold_UpdatePackages:
  "mm_find e (fold (\<lambda>it mm. fold (UpdatePackagesForAdded_desc mp A it)
                                 (setEntries_of (CalculateDescendants mp it)) mm) xs mm) =
     (if e \<in> set A \<or> filter (\<lambda>a. e \<in> set (CalculateDescendants mp a)) xs = []
      then mm_find e mm
      else Some (subtract_parents mp (filter (\<lambda>a. e \<in> set (CalculateDescendants mp a)) xs)
                   (case mm_find e mm of None \<Rightarrow> CTxMemPoolModifiedEntry_of mp e | Some m \<Rightarrow> m)))"
proof (induction xs arbitrary: mm)
  case Nil
  then show ?case by simp
next
  case (Cons x xs)
  show ?case
    by (simp add: Cons.IH mm_find_fold_desc subtract_parents_def)
qed

text \<open>
  One call of \<open>UpdatePackagesForAdded\<close>: the entry of a transaction outside
  \<open>alreadyAdded\<close> that descends from some of the added ones is what it was before (the
  mempool entry, when there was none), less the own contributions of those added
  ancestors; the other entries are as they were.
\<close>

lemma mm_find_UpdatePackagesForAdded:
  "mm_find e (UpdatePackagesForAdded mp A mm) =
     (if e \<in> set A \<or> filter (\<lambda>a. e \<in> set (CalculateDescendants mp a)) A = []
      then mm_find e mm
      else Some (subtract_parents mp (filter (\<lambda>a. e \<in> set (CalculateDescendants mp a)) A)
                   (case mm_find e mm of None \<Rightarrow> CTxMemPoolModifiedEntry_of mp e | Some m \<Rightarrow> m)))"
  unfolding UpdatePackagesForAdded_def by (rule mm_find_fold_UpdatePackages)

lemma subtract_parents_sel:
  "iter (subtract_parents mp ps m) = iter m"
  "nSizeWithAncestors (subtract_parents mp ps m)
     = nSizeWithAncestors m - sum_list (map (\<lambda>a. GetTxSize (deref mp a)) ps)"
  "nModFeesWithAncestors (subtract_parents mp ps m)
     = nModFeesWithAncestors m - sum_list (map (\<lambda>a. GetModifiedFee (deref mp a)) ps)"
  "nSigOpCostWithAncestors (subtract_parents mp ps m)
     = nSigOpCostWithAncestors m - sum_list (map (\<lambda>a. GetSigOpCost (deref mp a)) ps)"
  unfolding subtract_parents_def
  by (induction ps arbitrary: m; simp add: update_for_parent_inclusion_def)+

section \<open>The body of the priority loop, flattened\<close>

lemma TestForBlock_accepts_iff:
  "fst (TestForBlock env mp a it) \<longleftrightarrow>
     nBlockWeight a + GetTxWeight (deref mp it) < nBlockMaxWeight a
     \<and> (fNeedSizeAccounting a \<longrightarrow>
           nBlockSize a + GetSerializeSize env (GetTx (deref mp it)) < nBlockMaxSize a)
     \<and> nBlockSigOpsCost a + GetSigOpCost (deref mp it) < MAX_BLOCK_SIGOPS_COST env
     \<and> IsFinalTx env (GetTx (deref mp it)) (nHeight a) (nLockTimeCutoff a)"
proof (cases "nBlockWeight a + GetTxWeight (deref mp it) \<ge> nBlockMaxWeight a")
  case True
  then show ?thesis by (simp add: TestForBlock_def Let_def)
next
  case w: False
  show ?thesis
  proof (cases "fNeedSizeAccounting a
              \<and> nBlockSize a + GetSerializeSize env (GetTx (deref mp it)) \<ge> nBlockMaxSize a")
    case True
    with w show ?thesis by (simp add: TestForBlock_def Let_def)
  next
    case sz: False
    show ?thesis
    proof (cases "nBlockSigOpsCost a + GetSigOpCost (deref mp it) \<ge> MAX_BLOCK_SIGOPS_COST env")
      case True
      with w sz show ?thesis by (simp add: TestForBlock_def Let_def)
    next
      case False
      with w sz show ?thesis by (auto simp: TestForBlock_def Let_def)
    qed
  qed
qed

lemma TestForBlock_accepts_state:
  assumes "fst (TestForBlock env mp a it)"
  shows "snd (TestForBlock env mp a it) = a"
proof -
  from assms [unfolded TestForBlock_accepts_iff]
  have "\<not> nBlockWeight a + GetTxWeight (deref mp it) \<ge> nBlockMaxWeight a"
    "\<not> (fNeedSizeAccounting a
              \<and> nBlockSize a + GetSerializeSize env (GetTx (deref mp it)) \<ge> nBlockMaxSize a)"
    "\<not> nBlockSigOpsCost a + GetSigOpCost (deref mp it) \<ge> MAX_BLOCK_SIGOPS_COST env"
    "IsFinalTx env (GetTx (deref mp it)) (nHeight a) (nLockTimeCutoff a)"
    by auto
  then show ?thesis by (auto simp: TestForBlock_def Let_def)
qed

lemma addPriorityTxs_body_flat:
  "addPriorityTxs_body env mp fPoS blockTime n s =
     (if vecPriority s = [] \<or> blockFinished (asm_pri s) then Break s
      else if snd (pri_top env s) \<in> set (inBlock (asm_pri s)) then AssertFail
      else if pri_unfit env mp fPoS blockTime s then Continue (pri_popped env s)
      else if isStillDependent mp (asm_pri s) (snd (pri_top env s))
      then Continue ((pri_popped env s)\<lparr>waitPriMap :=
              waitPriMap_insert (snd (pri_top env s), fst (pri_top env s)) (waitPriMap s)\<rparr>)
      else if \<not> fst (TestForBlock env mp (asm_pri s) (snd (pri_top env s)))
      then Continue ((pri_popped env s)\<lparr>asm_pri :=
              snd (TestForBlock env mp (asm_pri s) (snd (pri_top env s)))\<rparr>)
      else if nBlockSize (AddToBlock env mp (asm_pri s) (snd (pri_top env s))) \<ge> n
               \<or> \<not> AllowFree env (fst (pri_top env s))
      then Break ((pri_popped env s)\<lparr>asm_pri :=
                   AddToBlock env mp (asm_pri s) (snd (pri_top env s))\<rparr>)
      else Continue (fold requeue_child
                   (setEntries_of (GetMemPoolChildren mp (snd (pri_top env s))))
                   ((pri_popped env s)\<lparr>asm_pri :=
                       AddToBlock env mp (asm_pri s) (snd (pri_top env s))\<rparr>)))"
proof (cases "vecPriority s = [] \<or> blockFinished (asm_pri s)")
  case True
  then show ?thesis by (simp add: addPriorityTxs_body_result)
next
  case c1: False
  show ?thesis
  proof (cases "snd (pri_top env s) \<in> set (inBlock (asm_pri s))")
    case True
    with c1 show ?thesis by (simp add: addPriorityTxs_body_result Let_def)
  next
    case c2: False
    show ?thesis
    proof (cases "\<not> fIncludeWitness (asm_pri s) \<and> \<not> wit_IsNull (GetTx (deref mp (snd (pri_top env s))))")
      case True
      with c1 c2 show ?thesis by (simp add: addPriorityTxs_body_result Let_def pri_unfit_def)
    next
      case c3: False
      show ?thesis
      proof (cases "nTime (GetTx (deref mp (snd (pri_top env s)))) > word_of_int (GetAdjustedTime env (nClock s))
                    \<or> (fPoS \<and> nTime (GetTx (deref mp (snd (pri_top env s)))) > blockTime)")
        case True
        with c1 c2 c3 show ?thesis by (simp add: addPriorityTxs_body_result Let_def pri_unfit_def)
      next
        case c4: False
        from c3 c4 have nu: "\<not> pri_unfit env mp fPoS blockTime s" by (simp add: pri_unfit_def)
        show ?thesis
        proof (cases "isStillDependent mp (asm_pri s) (snd (pri_top env s))")
          case True
          with c1 c2 c3 c4 nu show ?thesis by (auto simp: addPriorityTxs_body_result Let_def)
        next
          case c5: False
          show ?thesis
          proof (cases "fst (TestForBlock env mp (asm_pri s) (snd (pri_top env s)))")
            case True
            with c1 c2 c3 c4 c5 nu TestForBlock_accepts_state [OF True] show ?thesis
              by (auto simp: addPriorityTxs_body_result Let_def)
          next
            case False
            with c1 c2 c3 c4 c5 nu show ?thesis by (auto simp: addPriorityTxs_body_result Let_def)
          qed
        qed
      qed
    qed
  qed
qed

section \<open>Topological order of the template\<close>

lemma topological_append:
  assumes "topological mp L"
    and "\<And>j. j < length M \<Longrightarrow>
           set (CalculateMemPoolAncestors mp (M ! j)) \<subseteq> set L \<union> set (take j M)"
  shows "topological mp (L @ M)"
  unfolding topological_def
proof (intro allI impI)
  fix j assume j: "j < length (L @ M)"
  show "set (CalculateMemPoolAncestors mp ((L @ M) ! j)) \<subseteq> set (take j (L @ M))"
  proof (cases "j < length L")
    case True
    with assms(1) show ?thesis by (auto simp: topological_def nth_append)
  next
    case False
    with j have "j - length L < length M" by simp
    from assms(2) [OF this] False show ?thesis by (auto simp: nth_append)
  qed
qed

lemma topological_closed:
  assumes "topological mp L" "x \<in> set L"
  shows "set (CalculateMemPoolAncestors mp x) \<subseteq> set L"
proof -
  from assms(2) obtain j where "j < length L" "L ! j = x" by (auto simp: in_set_conv_nth)
  with assms(1) have "set (CalculateMemPoolAncestors mp x) \<subseteq> set (take j L)"
    by (auto simp: topological_def)
  then show ?thesis using set_take_subset [of j L] by blast
qed

lemma set_set_insert [simp]: "set (set_insert x xs) = insert x (set xs)"
  by (simp add: set_insert_def set_insort_key insert_absorb)

lemma distinct_set_insert: "distinct xs \<Longrightarrow> distinct (set_insert x xs)"
  by (simp add: set_insert_def distinct_insort)

lemma set_package_of:
  "set (package_of mp a it) =
     insert it (set (CalculateMemPoolAncestors mp it) - set (inBlock a))"
  by (auto simp: package_of_def onlyUnconfirmed_def)

lemma distinct_package_of: "distinct (package_of mp a it)"
  by (simp add: package_of_def onlyUnconfirmed_def distinct_set_insert)

lemma SortForBlock_props:
  "set (SortForBlock mp pkg) = set pkg"
  "length (SortForBlock mp pkg) = length pkg"
  "distinct pkg \<Longrightarrow> distinct (SortForBlock mp pkg)"
  "sorted (map (\<lambda>it. GetCountWithAncestors (deref mp it)) (SortForBlock mp pkg))"
  by (simp_all add: SortForBlock_def)

text \<open>In the sorted package, an element with a smaller ancestor count stands before one
  with a greater count.\<close>

lemma SortForBlock_before:
  assumes j: "j < length (SortForBlock mp pkg)"
    and y: "y \<in> set pkg"
    and lt: "GetCountWithAncestors (deref mp y)
               < GetCountWithAncestors (deref mp (SortForBlock mp pkg ! j))"
  shows "y \<in> set (take j (SortForBlock mp pkg))"
proof -
  let ?M = "SortForBlock mp pkg"
  let ?f = "\<lambda>it. GetCountWithAncestors (deref mp it)"
  from y have "y \<in> set ?M" by (simp add: SortForBlock_props)
  then obtain i where i: "i < length ?M" "?M ! i = y"
    unfolding in_set_conv_nth by blast
  have "i < j"
  proof (rule ccontr)
    assume "\<not> i < j"
    then have "j \<le> i" by simp
    moreover have "i < length (map ?f ?M)" using i(1) by simp
    ultimately have "map ?f ?M ! j \<le> map ?f ?M ! i"
      using SortForBlock_props(4) [of mp pkg] by (rule sorted_nth_mono [rotated])
    with i j lt show False by simp
  qed
  with i show ?thesis by (auto simp: in_set_conv_nth)
qed

lemma AddPackage_sel:
  "inBlock (AddPackage env mp M a) = fold set_insert M (inBlock a)"
  "vtx (block (pblocktemplate (AddPackage env mp M a)))
     = vtx (block (pblocktemplate a)) @ map (\<lambda>it. GetTx (deref mp it)) M"
  unfolding AddPackage_def
  by (induction M arbitrary: a; simp add: AddToBlock_sel)+

lemma set_fold_set_insert: "set (fold set_insert M xs) = set M \<union> set xs"
  by (induction M arbitrary: xs) auto

lemma block_ordered_AddPackage:
  assumes ids: "\<And>h. hash (GetTx (deref mp h)) = h"
    and wf: "ancestry_wf mp"
    and inv: "block_ordered mp a"
    and notin: "it \<notin> set (inBlock a)"
  shows "block_ordered mp (AddPackage env mp (SortForBlock mp (package_of mp a it)) a)"
proof -
  let ?pkg = "package_of mp a it"
  let ?M = "SortForBlock mp ?pkg"
  from inv have ne: "vtx (block (pblocktemplate a)) \<noteq> []"
    and seteq: "set (committed a) = set (inBlock a)" and topo: "topological mp (committed a)"
    by (simp_all add: block_ordered_def)
  have com: "committed (AddPackage env mp ?M a) = committed a @ ?M"
    using ne by (simp add: committed_def AddPackage_sel ids comp_def)
  have anc_in: "set (CalculateMemPoolAncestors mp x) \<subseteq> set (inBlock a) \<union> set ?pkg"
    if "x \<in> set ?pkg" for x
  proof -
    from that have "x = it \<or> x \<in> set (CalculateMemPoolAncestors mp it)"
      by (auto simp: set_package_of)
    then have "set (CalculateMemPoolAncestors mp x) \<subseteq> set (CalculateMemPoolAncestors mp it)"
      using wf by (auto simp: ancestry_wf_def)
    then show ?thesis by (auto simp: set_package_of)
  qed
  have "topological mp (committed a @ ?M)"
  proof (rule topological_append [OF topo])
    fix j assume j: "j < length ?M"
    then have mem: "?M ! j \<in> set ?pkg"
      using SortForBlock_props(1) [of mp ?pkg] nth_mem by blast
    show "set (CalculateMemPoolAncestors mp (?M ! j)) \<subseteq> set (committed a) \<union> set (take j ?M)"
    proof
      fix y assume y: "y \<in> set (CalculateMemPoolAncestors mp (?M ! j))"
      with anc_in [OF mem] have "y \<in> set (inBlock a) \<or> y \<in> set ?pkg" by blast
      moreover have "GetCountWithAncestors (deref mp y) < GetCountWithAncestors (deref mp (?M ! j))"
        using wf y by (auto simp: ancestry_wf_def)
      ultimately show "y \<in> set (committed a) \<union> set (take j ?M)"
        using SortForBlock_before [OF j] seteq by blast
    qed
  qed
  moreover have "set (committed a @ ?M) = set (inBlock (AddPackage env mp ?M a))"
    using seteq by (auto simp: AddPackage_sel set_fold_set_insert SortForBlock_props)
  ultimately show ?thesis
    using ne com by (simp add: block_ordered_def AddPackage_sel)
qed

lemma block_ordered_AddToBlock:
  assumes ids: "\<And>h. hash (GetTx (deref mp h)) = h"
    and wf: "ancestry_wf mp"
    and inv: "block_ordered mp a"
    and indep: "\<not> isStillDependent mp a it"
  shows "block_ordered mp (AddToBlock env mp a it)"
proof -
  from inv have ne: "vtx (block (pblocktemplate a)) \<noteq> []"
    and seteq: "set (committed a) = set (inBlock a)" and topo: "topological mp (committed a)"
    by (simp_all add: block_ordered_def)
  from indep have par: "set (GetMemPoolParents mp it) \<subseteq> set (inBlock a)"
    by (auto simp: isStillDependent_def list_ex_iff)
  have "set (CalculateMemPoolAncestors mp p) \<subseteq> set (inBlock a)" if "p \<in> set (GetMemPoolParents mp it)" for p
    using topological_closed [OF topo, of p] that par seteq by auto
  with par wf have anc: "set (CalculateMemPoolAncestors mp it) \<subseteq> set (committed a)"
    unfolding ancestry_wf_def seteq by blast
  have com: "committed (AddToBlock env mp a it) = committed a @ [it]"
    using ne by (simp add: committed_def AddToBlock_sel ids)
  have "topological mp (committed a @ [it])"
    by (rule topological_append [OF topo]) (use anc in auto)
  then show ?thesis
    using ne com seteq by (simp add: block_ordered_def AddToBlock_sel)
qed

text \<open>
  A property of the assembler that holds when the package phase starts, and that adding
  the sorted package of a candidate outside the block keeps when the package has passed
  \<open>TestPackage\<close> and \<open>TestPackageTransactions\<close>, holds when the phase ends.
\<close>

lemma addPackageTxs_preserves_cond:
  assumes run: "addPackageTxs fuel env mp a = Some (Inr a')"
    and P: "P a"
    and add: "\<And>b it. P b \<Longrightarrow> it \<notin> set (inBlock b)
       \<Longrightarrow> fst (TestPackageTransactions env mp b (package_of mp b it))
       \<Longrightarrow> P (AddPackage env mp (SortForBlock mp (package_of mp b it)) b)"
  shows "P a'"
proof (rule iterate_Inr_induct [OF run [unfolded addPackageTxs_def], where I = "\<lambda>s. P (asm s)" and Q = P])
  show "P (asm \<lparr>mi = ancestor_score mp, mapModifiedTx = UpdatePackagesForAdded mp (inBlock a) [],
      failedTx = [], asm = a\<rparr>)" using P by simp
next
  fix s s' assume I: "P (asm s)" and b: "addPackageTxs_body env mp s = Continue s'"
  have cand: "P (asm s'')" if "addPackageTxs_candidate env mp s0 it modit = Continue s''" "asm s0 = asm s"
    for s0 s'' it modit
    using that I add [of "asm s" it]
    by (auto simp: candidate_result split: if_splits)
  from b show "P (asm s')"
  proof (cases rule: addPackageTxs_body_cases)
    case finished then show ?thesis by simp
  next
    case (skip it rest) with I show ?thesis by auto
  next
    case (fromMapTx it rest)
    then show ?thesis using cand [of "s\<lparr>mi := rest\<rparr>" it None s'] by simp
  next
    case (fromModified modit)
    then show ?thesis using cand [of s "iter modit" "Some modit" s'] by simp
  qed
next
  fix s r assume I: "P (asm s)" and b: "addPackageTxs_body env mp s = Break r"
  from b show "P r"
  proof (cases rule: addPackageTxs_body_cases)
    case finished with I show ?thesis by simp
  next
    case (skip it rest) then show ?thesis by simp
  next
    case (fromMapTx it rest)
    then show ?thesis using I by (auto simp: candidate_result split: if_splits)
  next
    case (fromModified modit)
    then show ?thesis using I by (auto simp: candidate_result split: if_splits)
  qed
qed

lemma addPriorityTxs_body_Continue:
  assumes "addPriorityTxs_body env mp fPoS blockTime n s = Continue s'"
  obtains (same) "asm_pri s' = asm_pri s"
  | (rejected) "\<not> fst (TestForBlock env mp (asm_pri s) (snd (pri_top env s)))"
      "asm_pri s' = snd (TestForBlock env mp (asm_pri s) (snd (pri_top env s)))"
  | (added) "snd (pri_top env s) \<notin> set (inBlock (asm_pri s))"
      "\<not> pri_unfit env mp fPoS blockTime s"
      "\<not> isStillDependent mp (asm_pri s) (snd (pri_top env s))"
      "fst (TestForBlock env mp (asm_pri s) (snd (pri_top env s)))"
      "asm_pri s' = AddToBlock env mp (asm_pri s) (snd (pri_top env s))"
proof -
  let ?it = "snd (pri_top env s)"
  let ?a = "asm_pri s"
  note flat = assms [unfolded addPriorityTxs_body_flat]
  have r1: "\<not> (vecPriority s = [] \<or> blockFinished ?a)"
    using flat by (cases "vecPriority s = [] \<or> blockFinished ?a") simp_all
  have r2: "?it \<notin> set (inBlock ?a)"
    using flat r1 by (cases "?it \<in> set (inBlock ?a)") simp_all
  show ?thesis
  proof (cases "pri_unfit env mp fPoS blockTime s")
    case True
    with flat r1 r2 have "s' = pri_popped env s" by simp
    then have "asm_pri s' = ?a" by (simp add: pri_popped_def)
    then show ?thesis by (rule same)
  next
    case c3: False
    show ?thesis
    proof (cases "isStillDependent mp ?a ?it")
      case True
      with flat r1 r2 c3 have "s' = (pri_popped env s)\<lparr>waitPriMap :=
            waitPriMap_insert (?it, fst (pri_top env s)) (waitPriMap s)\<rparr>"
        by simp
      then have "asm_pri s' = ?a" by (simp add: pri_popped_def)
      then show ?thesis by (rule same)
    next
      case c4: False
      show ?thesis
      proof (cases "fst (TestForBlock env mp ?a ?it)")
        case T: True
        let ?b = "AddToBlock env mp ?a ?it"
        from flat r1 r2 c3 c4 T
        have "s' = fold requeue_child (setEntries_of (GetMemPoolChildren mp ?it))
                     ((pri_popped env s)\<lparr>asm_pri := ?b\<rparr>)"
          by (cases "nBlockSize ?b \<ge> n \<or> \<not> AllowFree env (fst (pri_top env s))") simp_all
        then have "asm_pri s' = ?b" by (simp add: asm_pri_requeue)
        with T r2 c3 c4 added show ?thesis by simp
      next
        case F: False
        with flat r1 r2 c3 c4
        have "s' = (pri_popped env s)\<lparr>asm_pri := snd (TestForBlock env mp ?a ?it)\<rparr>"
          by simp
        with F rejected show ?thesis by simp
      qed
    qed
  qed
qed

lemma addPriorityTxs_body_Break:
  assumes "addPriorityTxs_body env mp fPoS blockTime n s = Break r"
  obtains (stop) "r = s"
  | (added) "snd (pri_top env s) \<notin> set (inBlock (asm_pri s))"
      "\<not> pri_unfit env mp fPoS blockTime s"
      "\<not> isStillDependent mp (asm_pri s) (snd (pri_top env s))"
      "fst (TestForBlock env mp (asm_pri s) (snd (pri_top env s)))"
      "asm_pri r = AddToBlock env mp (asm_pri s) (snd (pri_top env s))"
proof (cases "vecPriority s = [] \<or> blockFinished (asm_pri s)")
  case True
  with assms have "r = s" by (simp add: addPriorityTxs_body_flat)
  then show ?thesis by (rule stop)
next
  case r1: False
  let ?it = "snd (pri_top env s)"
  let ?a = "asm_pri s"
  let ?b = "AddToBlock env mp ?a ?it"
  note flat = assms [unfolded addPriorityTxs_body_flat]
  have r2: "?it \<notin> set (inBlock ?a)"
    using flat r1 by (cases "?it \<in> set (inBlock ?a)") simp_all
  have c3: "\<not> pri_unfit env mp fPoS blockTime s"
    using flat r1 r2 by (cases "pri_unfit env mp fPoS blockTime s") simp_all
  have c4: "\<not> isStillDependent mp ?a ?it"
    using flat r1 r2 c3 by (cases "isStillDependent mp ?a ?it") simp_all
  have T: "fst (TestForBlock env mp ?a ?it)"
    using flat r1 r2 c3 c4 by (cases "fst (TestForBlock env mp ?a ?it)") simp_all
  have "r = (pri_popped env s)\<lparr>asm_pri := ?b\<rparr>"
    using flat r1 r2 c3 c4 T
    by (cases "nBlockSize ?b \<ge> n \<or> \<not> AllowFree env (fst (pri_top env s))") simp_all
  with r2 c3 c4 T added show ?thesis by simp
qed

text \<open>
  The same for the priority phase, which runs with size accounting switched on: \<open>P\<close> is
  kept when a transaction that is outside the block, has all its parents in the block and
  passes \<open>TestForBlock\<close> is added, and does not depend on \<open>lastFewTxs\<close> and
  \<open>blockFinished\<close>; \<open>Q\<close> is what \<open>P\<close> gives once the accounting flag is put back.
\<close>

lemma addPriorityTxs_preserves_cond:
  assumes run: "addPriorityTxs fuel env mp fPoS blockTime k a = Some (Inr (k', a'))"
    and skip: "min (nBlockMaxSize a) (blockprioritysize env) = 0 \<Longrightarrow> Q a"
    and P: "P (a\<lparr>fNeedSizeAccounting := True\<rparr>)"
    and add: "\<And>b it. P b \<Longrightarrow> fNeedSizeAccounting b \<Longrightarrow> it \<notin> set (inBlock b)
       \<Longrightarrow> \<not> isStillDependent mp b it \<Longrightarrow> fst (TestForBlock env mp b it)
       \<Longrightarrow> P (AddToBlock env mp b it) \<and> fNeedSizeAccounting (AddToBlock env mp b it)"
    and flags: "\<And>b l f. P b \<Longrightarrow> P (b\<lparr>lastFewTxs := l, blockFinished := f\<rparr>)"
    and restore: "\<And>b. P b \<Longrightarrow> fNeedSizeAccounting b
       \<Longrightarrow> Q (b\<lparr>fNeedSizeAccounting := fNeedSizeAccounting a\<rparr>)"
  shows "Q a'"
proof (cases "min (nBlockMaxSize a) (blockprioritysize env) = 0")
  case True
  with run skip show ?thesis by (simp add: addPriorityTxs_def)
next
  case False
  define body where "body = addPriorityTxs_body env mp fPoS blockTime (min (nBlockMaxSize a) (blockprioritysize env))"
  define s0 where "s0 = \<lparr>vecPriority = map (\<lambda>m. (GetPriority mp m (nHeight a), m)) (mapTx mp),
       waitPriMap = [], nClock = k, asm_pri = a\<lparr>fNeedSizeAccounting := True\<rparr>\<rparr>"
  define I where "I = (\<lambda>s :: 'a PriorityLoop. P (asm_pri s) \<and> fNeedSizeAccounting (asm_pri s))"
  from run False obtain s where it: "iterate fuel body s0 = Some (Inr s)"
    and a': "a' = (asm_pri s)\<lparr>fNeedSizeAccounting := fNeedSizeAccounting a\<rparr>"
    by (auto simp: addPriorityTxs_def Let_def body_def s0_def split: option.splits sum.splits)
  have tfb: "P (snd (TestForBlock env mp b it)) \<and> fNeedSizeAccounting (snd (TestForBlock env mp b it))"
    if "P b" "fNeedSizeAccounting b" for b it
  proof -
    define l where "l = lastFewTxs (snd (TestForBlock env mp b it))"
    define f where "f = blockFinished (snd (TestForBlock env mp b it))"
    have eq: "snd (TestForBlock env mp b it) = b\<lparr>lastFewTxs := l, blockFinished := f\<rparr>"
      unfolding l_def f_def by (rule TestForBlock_state)
    have "P (b\<lparr>lastFewTxs := l, blockFinished := f\<rparr>)" by (rule flags [OF that(1)])
    moreover have "fNeedSizeAccounting (b\<lparr>lastFewTxs := l, blockFinished := f\<rparr>)"
      using that(2) by simp
    ultimately show ?thesis unfolding eq by simp
  qed
  have "I s"
  proof (rule iterate_Inr_induct [OF it, where I = I])
    show "I s0" using P by (simp add: s0_def I_def)
  next
    fix s s' assume Is: "I s" and b: "body s = Continue s'"
    from b [unfolded body_def] show "I s'"
    proof (cases rule: addPriorityTxs_body_Continue)
      case same with Is show ?thesis by (simp add: I_def)
    next
      case rejected with Is tfb show ?thesis by (simp add: I_def)
    next
      case added with Is add [of "asm_pri s" "snd (pri_top env s)"] show ?thesis by (simp add: I_def)
    qed
  next
    fix s r assume Is: "I s" and b: "body s = Break r"
    from b [unfolded body_def] show "I r"
    proof (cases rule: addPriorityTxs_body_Break)
      case stop with Is show ?thesis by simp
    next
      case added with Is add [of "asm_pri s" "snd (pri_top env s)"] show ?thesis by (simp add: I_def)
    qed
  qed
  with a' restore show ?thesis by (simp add: I_def)
qed

lemma block_ordered_start:
  "block_ordered mp (CreateNewBlock_start env pindexPrev fWit (resetBlock a0))"
  by (simp add: block_ordered_def committed_def topological_def CreateNewBlock_start_def
      resetBlock_def Let_def CBlockTemplate_new_def CBlock_null_def)

lemma block_ordered_selection:
  assumes ids: "\<And>h. hash (GetTx (deref mp h)) = h"
    and wf: "ancestry_wf mp"
    and pri: "addPriorityTxs fuel env mp fPoS blockTime k a1 = Some (Inr (k', a2))"
    and pkg: "addPackageTxs fuel env mp a2 = Some (Inr a3)"
    and start: "block_ordered mp a1"
  shows "block_ordered mp a3"
proof -
  have "block_ordered mp a2"
  proof (rule addPriorityTxs_preserves_cond [OF pri, where P = "block_ordered mp"])
    show "block_ordered mp a1" by (rule start)
    show "block_ordered mp (a1\<lparr>fNeedSizeAccounting := True\<rparr>)"
      using start by (simp add: block_ordered_def committed_def)
    show "block_ordered mp (AddToBlock env mp b it) \<and> fNeedSizeAccounting (AddToBlock env mp b it)"
      if "block_ordered mp b" "fNeedSizeAccounting b" "it \<notin> set (inBlock b)"
        "\<not> isStillDependent mp b it" "fst (TestForBlock env mp b it)" for b it
      using block_ordered_AddToBlock [OF ids wf that(1,4)] that(2) by (simp add: AddToBlock_sel)
    show "block_ordered mp (b\<lparr>lastFewTxs := l, blockFinished := f\<rparr>)" if "block_ordered mp b" for b l f
      using that by (simp add: block_ordered_def committed_def)
    show "block_ordered mp (b\<lparr>fNeedSizeAccounting := fNeedSizeAccounting a1\<rparr>)"
      if "block_ordered mp b" "fNeedSizeAccounting b" for b
      using that by (simp add: block_ordered_def committed_def)
  qed
  then show ?thesis
    by (rule addPackageTxs_preserves_cond [OF pkg, where P = "block_ordered mp"])
       (rule block_ordered_AddPackage [OF ids wf])
qed

text \<open>
  Claim C2. In a returned template every ancestor that the mempool lists for a
  transaction after the coinbase stands in the template at an earlier index, itself
  after the coinbase. And in a package sorted by \<open>SortForBlock\<close> every ancestor of an
  element that belongs to the package stands before it, the ancestor count of an
  ancestor being smaller. An iterator is the hash of its transaction.
\<close>

theorem template_topological:
  assumes run: "CreateNewBlock fuel env mp pindexPrev a0 script fPoS pStakeReward fWit
                  = Some (Inr (Some t, reward, a))"
    and ids: "\<And>h. hash (GetTx (deref mp h)) = h"
    and wf: "ancestry_wf mp"
  shows "(\<forall>j. 1 \<le> j \<and> j < length (vtx (block t)) \<longrightarrow>
            (\<forall>x \<in> set (CalculateMemPoolAncestors mp (hash (vtx (block t) ! j))).
               \<exists>i. 1 \<le> i \<and> i < j \<and> hash (vtx (block t) ! i) = x))
       \<and> (\<forall>pkg j y. j < length (SortForBlock mp pkg) \<and> y \<in> set pkg
            \<and> y \<in> set (CalculateMemPoolAncestors mp (SortForBlock mp pkg ! j))
            \<longrightarrow> y \<in> set (take j (SortForBlock mp pkg)))"
proof -
  from run obtain k a2 a3 where
    pri: "addPriorityTxs fuel env mp fPoS
       (nTime (vtx (block (pblocktemplate (CreateNewBlock_start env pindexPrev fWit (resetBlock a0)))) ! 0))
       1 (CreateNewBlock_start env pindexPrev fWit (resetBlock a0)) = Some (Inr (k, a2))"
    and pkg: "addPackageTxs fuel env mp a2 = Some (Inr a3)"
    and fin: "CreateNewBlock_finish env pindexPrev script fPoS pStakeReward k a3 = (t, reward)"
    and a: "a = a3\<lparr>pblocktemplate := t\<rparr>"
    by (rule CreateNewBlock_SomeE)
  have ord: "block_ordered mp a3"
    by (rule block_ordered_selection [OF ids wf pri pkg block_ordered_start])
  have tl_eq: "tl (vtx (block t)) = tl (vtx (block (pblocktemplate a3)))"
    by (rule finish_fees(2) [OF fin])
  have len: "length (vtx (block t)) = length (vtx (block (pblocktemplate a3)))"
    by (rule finish_lengths(1) [OF fin])
  define L where "L = map hash (tl (vtx (block t)))"
  have topo: "topological mp L"
    using ord by (simp add: block_ordered_def committed_def L_def tl_eq)
  have nth: "hash (vtx (block t) ! j) = L ! (j - 1)" if "1 \<le> j" "j < length (vtx (block t))" for j
    using that by (cases j) (simp_all add: L_def nth_tl)
  have 1: "\<exists>i. 1 \<le> i \<and> i < j \<and> hash (vtx (block t) ! i) = x"
    if j: "1 \<le> j" "j < length (vtx (block t))"
      and x: "x \<in> set (CalculateMemPoolAncestors mp (hash (vtx (block t) ! j)))" for j x
  proof -
    have jl: "j - 1 < length L" using j by (simp add: L_def)
    with topo x have "x \<in> set (take (j - 1) L)"
      unfolding nth [OF j] topological_def by blast
    then obtain i where i: "i < j - 1" "L ! i = x"
      using jl by (auto simp: in_set_conv_nth)
    then have "1 \<le> i + 1 \<and> i + 1 < j \<and> hash (vtx (block t) ! (i + 1)) = x"
      using nth [of "i + 1"] j by simp
    then show ?thesis by blast
  qed
  have 2: "y \<in> set (take j (SortForBlock mp pkg))"
    if "j < length (SortForBlock mp pkg)" "y \<in> set pkg"
      "y \<in> set (CalculateMemPoolAncestors mp (SortForBlock mp pkg ! j))" for pkg j y
  proof (rule SortForBlock_before [OF that(1,2)])
    show "GetCountWithAncestors (deref mp y)
            < GetCountWithAncestors (deref mp (SortForBlock mp pkg ! j))"
      using wf that(3) by (auto simp: ancestry_wf_def)
  qed
  from 1 2 show ?thesis by blast
qed

lemma ex_ancestry_wf: "ancestry_wf ex_mp"
  by (auto simp: ancestry_wf_def ex_mp_sel ex_entry_sel split: if_splits)

theorem template_topological_witness:
  "CreateNewBlock ex_fuel ex_env ex_mp ex_tip ex_asm [] False None True
     = Some (Inr (Some ex_t, None, ex_a3\<lparr>pblocktemplate := ex_t\<rparr>))
   \<and> (\<forall>h. hash (GetTx (deref ex_mp h)) = h)
   \<and> ancestry_wf ex_mp
   \<and> map hash (tl (vtx (block ex_t))) = [12, 11]
   \<and> SortForBlock ex_mp [11, 12, 13] = [11, 12, 13]
   \<and> CalculateMemPoolAncestors ex_mp 13 = [11, 12]"
  using template_topological [OF ex_CreateNewBlock ex_ids ex_ancestry_wf]
    ex_CreateNewBlock ex_ids ex_ancestry_wf
  by (simp add: ex_t_sel ex_entry_sel ex_mp_sel SortForBlock_def)

section \<open>Bounds on the modified entries\<close>

lemma mm_find_fold_erase:
  "mm_find e (fold mm_erase M mm) = (if e \<in> set M then None else mm_find e mm)"
  by (induction M arbitrary: mm) (auto simp: mm_find_erase)

lemma modified_bounded_erase:
  "modified_bounded mp inB mm \<Longrightarrow> modified_bounded mp inB (fold mm_erase M mm)"
  by (auto simp: modified_bounded_def mm_find_fold_erase split: if_splits)

lemma modified_bounded_erase1:
  "modified_bounded mp inB mm \<Longrightarrow> modified_bounded mp inB (mm_erase k mm)"
  by (auto simp: modified_bounded_def mm_find_erase split: if_splits)

lemma sum_list_distinct_conv: "distinct xs \<Longrightarrow> sum_list (map f xs) = sum f (set xs)"
  by (induction xs) simp_all

lemma modified_bounded_UpdatePackagesForAdded:
  assumes dwf: "descendants_wf mp"
    and nonneg: "\<And>x. 0 \<le> GetSigOpCost (deref mp x)"
    and dist: "distinct A"
    and disj: "set A \<inter> inB = {}"
    and fin: "finite inB"
    and inv: "modified_bounded mp inB mm"
  shows "modified_bounded mp (inB \<union> set A) (UpdatePackagesForAdded mp A mm)"
  unfolding modified_bounded_def
proof (intro allI impI)
  fix e m' assume found: "mm_find e (UpdatePackagesForAdded mp A mm) = Some m'"
  let ?anc = "set (CalculateMemPoolAncestors mp e)"
  let ?D = "filter (\<lambda>a. e \<in> set (CalculateDescendants mp a)) A"
  let ?sz = "\<lambda>x. GetTxSize (deref mp x)"
  let ?so = "\<lambda>x. GetSigOpCost (deref mp x)"
  have split_sz: "sum ?sz ((inB \<union> set A) \<inter> ?anc) = sum ?sz (inB \<inter> ?anc) + sum ?sz (set A \<inter> ?anc)"
    using disj fin by (subst sum.union_disjoint [symmetric]) (auto simp: Int_Un_distrib2)
  have split_so: "sum ?so ((inB \<union> set A) \<inter> ?anc) = sum ?so (inB \<inter> ?anc) + sum ?so (set A \<inter> ?anc)"
    using disj fin by (subst sum.union_disjoint [symmetric]) (auto simp: Int_Un_distrib2)
  have so_nonneg: "0 \<le> sum ?so S" for S by (rule sum_nonneg) (simp add: nonneg)
  show "GetSizeWithAncestors (deref mp e) \<le> nSizeWithAncestors m' + sum ?sz ((inB \<union> set A) \<inter> ?anc)
      \<and> GetSigOpCostWithAncestors (deref mp e)
          \<le> nSigOpCostWithAncestors m' + sum ?so ((inB \<union> set A) \<inter> ?anc)"
  proof (cases "e \<in> set A \<or> ?D = []")
    case True
    with found have "mm_find e mm = Some m'" by (simp add: mm_find_UpdatePackagesForAdded)
    with inv have "GetSizeWithAncestors (deref mp e) \<le> nSizeWithAncestors m' + sum ?sz (inB \<inter> ?anc)"
      and "GetSigOpCostWithAncestors (deref mp e) \<le> nSigOpCostWithAncestors m' + sum ?so (inB \<inter> ?anc)"
      by (auto simp: modified_bounded_def)
    then show ?thesis using split_sz split_so so_nonneg [of "set A \<inter> ?anc"] by simp
  next
    case False
    define start where "start = (case mm_find e mm of None \<Rightarrow> CTxMemPoolModifiedEntry_of mp e | Some m \<Rightarrow> m)"
    from False found have m': "m' = subtract_parents mp ?D start"
      by (simp add: mm_find_UpdatePackagesForAdded start_def)
    from False have eA: "e \<notin> set A" by simp
    have Dsub: "set ?D \<subseteq> set A \<inter> ?anc"
      using dwf eA by (auto simp: descendants_wf_def)
    have Ddist: "distinct ?D" using dist by simp
    have D_sz: "sum_list (map ?sz ?D) \<le> sum ?sz (set A \<inter> ?anc)"
      unfolding sum_list_distinct_conv [OF Ddist] by (rule sum_mono2) (use Dsub in auto)
    have D_so: "sum_list (map ?so ?D) \<le> sum ?so (set A \<inter> ?anc)"
      unfolding sum_list_distinct_conv [OF Ddist]
      by (rule sum_mono2) (use Dsub nonneg in auto)
    have st: "GetSizeWithAncestors (deref mp e) \<le> nSizeWithAncestors start + sum ?sz (inB \<inter> ?anc)
        \<and> GetSigOpCostWithAncestors (deref mp e) \<le> nSigOpCostWithAncestors start + sum ?so (inB \<inter> ?anc)"
    proof (cases "mm_find e mm")
      case None
      then show ?thesis using so_nonneg [of "inB \<inter> ?anc"]
        by (simp add: start_def CTxMemPoolModifiedEntry_of_def)
    next
      case (Some m)
      with inv show ?thesis by (auto simp: start_def modified_bounded_def)
    qed
    show ?thesis
      using st D_sz D_so unfolding m' subtract_parents_sel split_sz split_so by linarith
  qed
qed

lemma map_iter_modify: "(\<And>m. iter (f m) = iter m) \<Longrightarrow> map iter (mm_modify k f mm) = map iter mm"
  by (induction mm) (simp_all add: mm_modify_def)

lemma mm_find_None_iff: "mm_find e mm = None \<longleftrightarrow> e \<notin> iter ` set mm"
  by (induction mm) (auto simp: mm_find_def)

lemma distinct_UpdatePackagesForAdded_desc:
  "distinct (map iter mm) \<Longrightarrow> distinct (map iter (UpdatePackagesForAdded_desc mp A it d mm))"
  by (auto simp: UpdatePackagesForAdded_desc_def Let_def mm_insert_def map_iter_modify
      mm_find_None_iff CTxMemPoolModifiedEntry_of_def split: option.splits)

lemma distinct_UpdatePackagesForAdded:
  "distinct (map iter mm) \<Longrightarrow> distinct (map iter (UpdatePackagesForAdded mp A mm))"
proof -
  have inner: "distinct (map iter mm) \<Longrightarrow>
      distinct (map iter (fold (UpdatePackagesForAdded_desc mp A it) ds mm))" for it ds mm
    by (induction ds arbitrary: mm) (simp_all add: distinct_UpdatePackagesForAdded_desc)
  have "distinct (map iter mm) \<Longrightarrow>
      distinct (map iter (fold (\<lambda>it mm. fold (UpdatePackagesForAdded_desc mp A it)
                                 (setEntries_of (CalculateDescendants mp it)) mm) xs mm))" for xs
    by (induction xs arbitrary: mm) (simp_all add: inner)
  then show "distinct (map iter mm) \<Longrightarrow> distinct (map iter (UpdatePackagesForAdded mp A mm))"
    by (simp add: UpdatePackagesForAdded_def)
qed

lemma distinct_mm_erase: "distinct (map iter mm) \<Longrightarrow> distinct (map iter (mm_erase k mm))"
  by (simp add: mm_erase_def distinct_map_filter)

lemma distinct_fold_mm_erase: "distinct (map iter mm) \<Longrightarrow> distinct (map iter (fold mm_erase M mm))"
  by (induction M arbitrary: mm) (simp_all add: distinct_mm_erase)

lemma mm_find_distinct_mem:
  "distinct (map iter mm) \<Longrightarrow> m \<in> set mm \<Longrightarrow> mm_find (iter m) mm = Some m"
  by (induction mm) (auto simp: mm_find_def rev_image_eqI)

section \<open>The block stays within its limits\<close>

lemma within_limits_AddToBlock:
  assumes ids: "\<And>h. hash (GetTx (deref mp h)) = h"
    and inv: "within_limits env mp a"
    and notin: "it \<notin> set (inBlock a)"
    and fits: "fst (TestForBlock env mp a it)"
  shows "within_limits env mp (AddToBlock env mp a it)"
  using inv notin fits [unfolded TestForBlock_accepts_iff]
  by (auto simp: within_limits_def AddToBlock_sel ids distinct_set_insert)

lemma AddPackage_counters:
  "nBlockWeight (AddPackage env mp M a)
     = nBlockWeight a + (\<Sum>x \<leftarrow> M. GetTxWeight (deref mp x))"
  "nBlockSigOpsCost (AddPackage env mp M a)
     = nBlockSigOpsCost a + (\<Sum>x \<leftarrow> M. GetSigOpCost (deref mp x))"
  "nBlockSize (AddPackage env mp M a)
     = (if fNeedSizeAccounting a
        then nBlockSize a + (\<Sum>x \<leftarrow> M. GetSerializeSize env (GetTx (deref mp x)))
        else nBlockSize a)"
  "fNeedSizeAccounting (AddPackage env mp M a) = fNeedSizeAccounting a"
  "nBlockMaxWeight (AddPackage env mp M a) = nBlockMaxWeight a"
  "nBlockMaxSize (AddPackage env mp M a) = nBlockMaxSize a"
  unfolding AddPackage_def
  by (induction M arbitrary: a; simp add: AddToBlock_sel)+

lemma distinct_fold_set_insert: "distinct xs \<Longrightarrow> distinct (fold set_insert M xs)"
  by (induction M arbitrary: xs) (simp_all add: distinct_set_insert)

lemma TestPackageTransactions_loop_size:
  assumes "fst (TestPackageTransactions_loop env mp a n pkg)" "fNeedSizeAccounting a"
  shows "n + (\<Sum>x \<leftarrow> pkg. GetSerializeSize env (GetTx (deref mp x))) < nBlockMaxSize a
         \<or> (pkg = [])"
  using assms
proof (induction pkg arbitrary: n)
  case Nil
  then show ?case by simp
next
  case (Cons x pkg)
  let ?sz = "GetSerializeSize env (GetTx (deref mp x))"
  from Cons.prems have ok: "n + ?sz < nBlockMaxSize a"
    and rest: "fst (TestPackageTransactions_loop env mp a (n + ?sz) pkg)"
    by (auto simp: Let_def split: if_splits)
  from Cons.IH [OF rest Cons.prems(2)] ok show ?case
    by (cases pkg) (auto simp: add.assoc)
qed

lemma TestPackageTransactions_size:
  assumes "fst (TestPackageTransactions env mp a pkg)" "fNeedSizeAccounting a"
    "nBlockSize a \<le> nBlockMaxSize a"
  shows "nBlockSize a + (\<Sum>x \<leftarrow> pkg. GetSerializeSize env (GetTx (deref mp x))) \<le> nBlockMaxSize a"
  using TestPackageTransactions_loop_size [OF assms(1) [unfolded TestPackageTransactions_def] assms(2)]
    assms(3)
  by auto

lemma TestPackage_accepts_iff:
  "fst (TestPackage env a ps so) \<longleftrightarrow>
     nBlockWeight a + 4 * ps < nBlockMaxWeight a
     \<and> nBlockSigOpsCost a + so < MAX_BLOCK_SIGOPS_COST env"
  by (auto simp: TestPackage_def WITNESS_SCALE_FACTOR_def)

lemma sum_list_SortForBlock:
  assumes "distinct pkg"
  shows "sum_list (map (f :: txiter \<Rightarrow> 'b :: comm_monoid_add) (SortForBlock mp pkg))
           = sum_list (map f pkg)"
  using assms
  by (simp add: sum_list_distinct_conv SortForBlock_props)

text \<open>Adding a package whose aggregates have passed \<open>TestPackage\<close> keeps the block within
  its limits, provided that the aggregates bound the package.\<close>

lemma within_limits_AddPackage:
  assumes ids: "\<And>h. hash (GetTx (deref mp h)) = h"
    and awf: "aggregates_wf mp"
    and inv: "within_limits env mp a"
    and notin: "it \<notin> set (inBlock a)"
    and tp: "fst (TestPackage env a ps so)"
    and tpt: "fst (TestPackageTransactions env mp a (package_of mp a it))"
    and ps: "(\<Sum>x \<in> set (package_of mp a it). GetTxSize (deref mp x)) \<le> ps"
    and so: "(\<Sum>x \<in> set (package_of mp a it). GetSigOpCost (deref mp x)) \<le> so"
  shows "within_limits env mp (AddPackage env mp (SortForBlock mp (package_of mp a it)) a)"
proof -
  let ?pkg = "package_of mp a it"
  let ?M = "SortForBlock mp ?pkg"
  let ?a' = "AddPackage env mp ?M a"
  from inv have ne: "vtx (block (pblocktemplate a)) \<noteq> []" and dist: "distinct (inBlock a)"
    and seteq: "set (inBlock a) = hash ` set (tl (vtx (block (pblocktemplate a))))"
    and w: "nBlockWeight a = 4000 + (\<Sum>tx \<leftarrow> tl (vtx (block (pblocktemplate a))). GetTxWeight (deref mp (hash tx)))"
    and s: "nBlockSigOpsCost a = 400 + (\<Sum>tx \<leftarrow> tl (vtx (block (pblocktemplate a))). GetSigOpCost (deref mp (hash tx)))"
    and sz: "fNeedSizeAccounting a \<Longrightarrow> nBlockSize a
              = 1000 + (\<Sum>tx \<leftarrow> tl (vtx (block (pblocktemplate a))). GetSerializeSize env tx)
            \<and> nBlockSize a \<le> nBlockMaxSize a"
    by (simp_all add: within_limits_def)
  have tl': "tl (vtx (block (pblocktemplate ?a')))
      = tl (vtx (block (pblocktemplate a))) @ map (\<lambda>it. GetTx (deref mp it)) ?M"
    using ne by (simp add: AddPackage_sel)
  have dpk: "distinct ?pkg" by (rule distinct_package_of)
  have weight_le: "(\<Sum>x \<leftarrow> ?M. GetTxWeight (deref mp x)) \<le> 4 * ps"
  proof -
    have "(\<Sum>x \<leftarrow> ?M. GetTxWeight (deref mp x)) = (\<Sum>x \<in> set ?pkg. GetTxWeight (deref mp x))"
      by (simp add: sum_list_SortForBlock [OF dpk] sum_list_distinct_conv [OF dpk])
    also have "\<dots> \<le> (\<Sum>x \<in> set ?pkg. 4 * GetTxSize (deref mp x))"
      by (rule sum_mono) (use awf in \<open>simp add: aggregates_wf_def\<close>)
    also have "\<dots> = 4 * (\<Sum>x \<in> set ?pkg. GetTxSize (deref mp x))" by (simp add: sum_distrib_left)
    also have "\<dots> \<le> 4 * ps" using ps by simp
    finally show ?thesis .
  qed
  have sig_le: "(\<Sum>x \<leftarrow> ?M. GetSigOpCost (deref mp x)) \<le> so"
    using so by (simp add: sum_list_SortForBlock [OF dpk] sum_list_distinct_conv [OF dpk])
  have size_eq: "(\<Sum>x \<leftarrow> ?M. GetSerializeSize env (GetTx (deref mp x)))
      = (\<Sum>x \<leftarrow> ?pkg. GetSerializeSize env (GetTx (deref mp x)))"
    by (rule sum_list_SortForBlock [OF dpk])
  from tp have tpw: "nBlockWeight a + 4 * ps < nBlockMaxWeight a"
    and tps: "nBlockSigOpsCost a + so < MAX_BLOCK_SIGOPS_COST env"
    by (simp_all add: TestPackage_accepts_iff)
  have 1: "vtx (block (pblocktemplate ?a')) \<noteq> []" using ne by (simp add: AddPackage_sel)
  have 2: "distinct (inBlock ?a')" using dist by (simp add: AddPackage_sel distinct_fold_set_insert)
  have 3: "set (inBlock ?a') = hash ` set (tl (vtx (block (pblocktemplate ?a'))))"
    unfolding tl' using seteq
    by (simp add: AddPackage_sel set_fold_set_insert ids image_Un image_image Un_commute)
  have 4: "nBlockWeight ?a' = 4000 + (\<Sum>tx \<leftarrow> tl (vtx (block (pblocktemplate ?a'))). GetTxWeight (deref mp (hash tx)))"
    unfolding tl' using w by (simp add: AddPackage_counters ids comp_def)
  have 5: "nBlockWeight ?a' \<le> nBlockMaxWeight ?a'"
    using tpw weight_le by (simp add: AddPackage_counters)
  have 6: "nBlockSigOpsCost ?a' = 400 + (\<Sum>tx \<leftarrow> tl (vtx (block (pblocktemplate ?a'))). GetSigOpCost (deref mp (hash tx)))"
    unfolding tl' using s by (simp add: AddPackage_counters ids comp_def)
  have 7: "nBlockSigOpsCost ?a' \<le> MAX_BLOCK_SIGOPS_COST env"
    using tps sig_le by (simp add: AddPackage_counters)
  have 8: "nBlockSize ?a' = 1000 + (\<Sum>tx \<leftarrow> tl (vtx (block (pblocktemplate ?a'))). GetSerializeSize env tx)
            \<and> nBlockSize ?a' \<le> nBlockMaxSize ?a'" if f: "fNeedSizeAccounting a"
    unfolding tl' using sz [OF f] TestPackageTransactions_size [OF tpt f] f
    by (simp add: AddPackage_counters comp_def size_eq)
  from 1 2 3 4 5 6 7 8 show ?thesis
    unfolding within_limits_def AddPackage_counters(4) by blast
qed

text \<open>The aggregates read for a candidate bound its package.\<close>

lemma package_bounds:
  assumes awf: "aggregates_wf mp"
    and notin: "it \<notin> set (inBlock a)"
    and modit: "modit = None \<or> (\<exists>m. modit = Some m \<and> mm_find it mm = Some m)"
    and bounded: "modified_bounded mp (set (inBlock a)) mm"
  shows "(\<Sum>x \<in> set (package_of mp a it). GetTxSize (deref mp x)) \<le> package_size mp it modit"
    and "(\<Sum>x \<in> set (package_of mp a it). GetSigOpCost (deref mp x)) \<le> package_sigops mp it modit"
proof -
  let ?anc = "set (CalculateMemPoolAncestors mp it)"
  let ?inB = "set (inBlock a)"
  let ?pkg = "set (package_of mp a it)"
  let ?sz = "\<lambda>x. GetTxSize (deref mp x)"
  let ?so = "\<lambda>x. GetSigOpCost (deref mp x)"
  have nonneg: "0 \<le> ?so x" for x using awf by (simp add: aggregates_wf_def)
  have self: "it \<notin> ?anc" using awf by (simp add: aggregates_wf_def)
  have base_sz: "sum ?sz (insert it ?anc) \<le> GetSizeWithAncestors (deref mp it)"
    and base_so: "sum ?so (insert it ?anc) \<le> GetSigOpCostWithAncestors (deref mp it)"
    using awf unfolding aggregates_wf_def by blast+
  have un: "insert it ?anc = ?pkg \<union> (?inB \<inter> ?anc)" "?pkg \<inter> (?inB \<inter> ?anc) = {}"
    using notin by (auto simp: set_package_of)
  have split_sz: "sum ?sz (insert it ?anc) = sum ?sz ?pkg + sum ?sz (?inB \<inter> ?anc)"
    unfolding un(1) by (rule sum.union_disjoint) (use un(2) in auto)
  have split_so: "sum ?so (insert it ?anc) = sum ?so ?pkg + sum ?so (?inB \<inter> ?anc)"
    unfolding un(1) by (rule sum.union_disjoint) (use un(2) in auto)
  have so_nonneg: "0 \<le> sum ?so (?inB \<inter> ?anc)" by (rule sum_nonneg) (simp add: nonneg)
  from modit show "sum ?sz ?pkg \<le> package_size mp it modit"
  proof
    assume "modit = None"
    then show ?thesis using base_sz split_sz by (simp add: package_size_def)
  next
    assume "\<exists>m. modit = Some m \<and> mm_find it mm = Some m"
    then obtain m where m: "modit = Some m" "mm_find it mm = Some m" by blast
    with bounded have "GetSizeWithAncestors (deref mp it)
        \<le> nSizeWithAncestors m + sum ?sz (?inB \<inter> ?anc)"
      by (auto simp: modified_bounded_def)
    then show ?thesis using base_sz split_sz m by (simp add: package_size_def)
  qed
  from modit show "sum ?so ?pkg \<le> package_sigops mp it modit"
  proof
    assume "modit = None"
    then show ?thesis using base_so split_so so_nonneg by (simp add: package_sigops_def)
  next
    assume "\<exists>m. modit = Some m \<and> mm_find it mm = Some m"
    then obtain m where m: "modit = Some m" "mm_find it mm = Some m" by blast
    with bounded have "GetSigOpCostWithAncestors (deref mp it)
        \<le> nSigOpCostWithAncestors m + sum ?so (?inB \<inter> ?anc)"
      by (auto simp: modified_bounded_def)
    then show ?thesis using base_so split_so m by (simp add: package_sigops_def)
  qed
qed

lemma mm_begin_mem: "mm_begin env mm = Some m \<Longrightarrow> m \<in> set mm"
proof -
  have "fold (\<lambda>y b. if CompareModifiedEntry env y b then y else b) xs x \<in> set (x # xs)" for x xs
    by (induction xs arbitrary: x) auto
  then show "mm_begin env mm = Some m \<Longrightarrow> m \<in> set mm"
    by (cases mm) auto
qed

lemma limits_invariant_candidate:
  assumes ids: "\<And>h. hash (GetTx (deref mp h)) = h"
    and awf: "aggregates_wf mp" and dwf: "descendants_wf mp"
    and inv: "limits_invariant env mp s"
    and modit: "modit = None \<or> (\<exists>m. modit = Some m \<and> mm_find it (mapModifiedTx s) = Some m)"
    and cand: "addPackageTxs_candidate env mp s it modit = Continue s'"
  shows "limits_invariant env mp s'"
proof -
  let ?a = "asm s"
  let ?pkg = "package_of mp ?a it"
  let ?M = "SortForBlock mp ?pkg"
  from inv have wl: "within_limits env mp ?a" and dm: "distinct (map iter (mapModifiedTx s))"
    and mb: "modified_bounded mp (set (inBlock ?a)) (mapModifiedTx s)"
    by (simp_all add: limits_invariant_def)
  from cand have notin: "it \<notin> set (inBlock ?a)"
    by (cases "it \<in> set (inBlock ?a)") (simp_all add: candidate_result)
  have nofloor: "\<not> package_fees mp it modit < minRelayTxFee_GetFee env (package_size mp it modit)"
    using cand notin by (auto simp: candidate_result split: if_splits)
  show ?thesis
  proof (cases "fst (TestPackage env ?a (package_size mp it modit) (package_sigops mp it modit))
                \<and> fst (TestPackageTransactions env mp ?a ?pkg)")
    case False
    with cand notin nofloor have "s' = package_failed s it (modit \<noteq> None)"
      by (auto simp: candidate_result split: if_splits)
    then show ?thesis
      using wl dm mb
      by (auto simp: limits_invariant_def package_failed_def distinct_mm_erase modified_bounded_erase1)
  next
    case True
    with cand notin nofloor
    have s': "s' = s\<lparr>asm := AddPackage env mp ?M ?a,
                     mapModifiedTx := UpdatePackagesForAdded mp ?pkg (fold mm_erase ?M (mapModifiedTx s))\<rparr>"
      by (simp add: candidate_result)
    have wl': "within_limits env mp (AddPackage env mp ?M ?a)"
      using True package_bounds [OF awf notin modit mb]
      by (intro within_limits_AddPackage [OF ids awf wl notin]) auto
    have dm': "distinct (map iter (UpdatePackagesForAdded mp ?pkg (fold mm_erase ?M (mapModifiedTx s))))"
      by (intro distinct_UpdatePackagesForAdded distinct_fold_mm_erase dm)
    have "modified_bounded mp (set (inBlock ?a) \<union> set ?pkg)
            (UpdatePackagesForAdded mp ?pkg (fold mm_erase ?M (mapModifiedTx s)))"
    proof (rule modified_bounded_UpdatePackagesForAdded [OF dwf])
      show "0 \<le> GetSigOpCost (deref mp x)" for x using awf by (simp add: aggregates_wf_def)
      show "distinct ?pkg" by (rule distinct_package_of)
      show "set ?pkg \<inter> set (inBlock ?a) = {}" using notin by (auto simp: set_package_of)
      show "finite (set (inBlock ?a))" by simp
      show "modified_bounded mp (set (inBlock ?a)) (fold mm_erase ?M (mapModifiedTx s))"
        by (rule modified_bounded_erase [OF mb])
    qed
    moreover have "set (inBlock (AddPackage env mp ?M ?a)) = set (inBlock ?a) \<union> set ?pkg"
      by (auto simp: AddPackage_sel set_fold_set_insert SortForBlock_props)
    ultimately show ?thesis
      using wl' dm' by (simp add: limits_invariant_def s')
  qed
qed

lemma limits_invariant_start:
  assumes awf: "aggregates_wf mp" and dwf: "descendants_wf mp"
    and wl: "within_limits env mp a"
  shows "limits_invariant env mp \<lparr>mi = ancestor_score mp,
           mapModifiedTx = UpdatePackagesForAdded mp (inBlock a) [], failedTx = [], asm = a\<rparr>"
proof -
  have "modified_bounded mp ({} \<union> set (inBlock a)) (UpdatePackagesForAdded mp (inBlock a) [])"
  proof (rule modified_bounded_UpdatePackagesForAdded [OF dwf])
    show "0 \<le> GetSigOpCost (deref mp x)" for x using awf by (simp add: aggregates_wf_def)
    show "distinct (inBlock a)" using wl by (simp add: within_limits_def)
    show "modified_bounded mp {} []" by (simp add: modified_bounded_def mm_find_def)
  qed simp_all
  moreover have "distinct (map iter (UpdatePackagesForAdded mp (inBlock a) []))"
    by (rule distinct_UpdatePackagesForAdded) simp
  ultimately show ?thesis using wl by (simp add: limits_invariant_def)
qed

lemma within_limits_addPackageTxs:
  assumes ids: "\<And>h. hash (GetTx (deref mp h)) = h"
    and awf: "aggregates_wf mp" and dwf: "descendants_wf mp"
    and run: "addPackageTxs fuel env mp a = Some (Inr a')"
    and wl: "within_limits env mp a"
  shows "within_limits env mp a'"
proof (rule iterate_Inr_induct [OF run [unfolded addPackageTxs_def],
      where I = "limits_invariant env mp" and Q = "within_limits env mp"])
  show "limits_invariant env mp \<lparr>mi = ancestor_score mp,
           mapModifiedTx = UpdatePackagesForAdded mp (inBlock a) [], failedTx = [], asm = a\<rparr>"
    by (rule limits_invariant_start [OF awf dwf wl])
next
  fix s s' assume I: "limits_invariant env mp s" and b: "addPackageTxs_body env mp s = Continue s'"
  from b show "limits_invariant env mp s'"
  proof (cases rule: addPackageTxs_body_cases)
    case finished then show ?thesis by simp
  next
    case (skip it rest) with I show ?thesis by (auto simp: limits_invariant_def)
  next
    case (fromMapTx it rest)
    have "limits_invariant env mp (s\<lparr>mi := rest\<rparr>)" using I by (simp add: limits_invariant_def)
    then show ?thesis
      by (rule limits_invariant_candidate [OF ids awf dwf _ _ fromMapTx(3) [symmetric]]) simp
  next
    case (fromModified modit)
    have "modit \<in> set (mapModifiedTx s)" by (rule mm_begin_mem [OF fromModified(1)])
    with I have "mm_find (iter modit) (mapModifiedTx s) = Some modit"
      by (simp add: limits_invariant_def mm_find_distinct_mem)
    then show ?thesis
      by (intro limits_invariant_candidate [OF ids awf dwf I _ fromModified(2) [symmetric]]) simp
  qed
next
  fix s r assume I: "limits_invariant env mp s" and b: "addPackageTxs_body env mp s = Break r"
  have "r = asm s"
    using b by (cases rule: addPackageTxs_body_cases) (auto simp: candidate_result split: if_splits)
  with I show "within_limits env mp r" by (simp add: limits_invariant_def)
qed

lemma within_limits_start:
  assumes "4000 \<le> nBlockMaxWeight a0" "1000 \<le> nBlockMaxSize a0" "400 \<le> MAX_BLOCK_SIGOPS_COST env"
  shows "within_limits env mp ((CreateNewBlock_start env pindexPrev fWit (resetBlock a0))
            \<lparr>fNeedSizeAccounting := f\<rparr>)"
  using assms
  by (simp add: within_limits_def CreateNewBlock_start_def resetBlock_def Let_def
      CBlockTemplate_new_def CBlock_null_def)

lemma within_limits_flags:
  "within_limits env mp b \<Longrightarrow> within_limits env mp (b\<lparr>lastFewTxs := l, blockFinished := f\<rparr>)"
  by (auto simp: within_limits_def)

lemma within_limits_addPriorityTxs:
  assumes ids: "\<And>h. hash (GetTx (deref mp h)) = h"
    and run: "addPriorityTxs fuel env mp fPoS blockTime k a1 = Some (Inr (k', a2))"
    and start: "\<And>f. within_limits env mp (a1\<lparr>fNeedSizeAccounting := f\<rparr>)"
  shows "within_limits env mp a2"
proof (rule addPriorityTxs_preserves_cond [OF run, where P = "within_limits env mp"])
  show "within_limits env mp a1" using start [of "fNeedSizeAccounting a1"] by simp
  show "within_limits env mp (a1\<lparr>fNeedSizeAccounting := True\<rparr>)" by (rule start)
  show "within_limits env mp (AddToBlock env mp b it) \<and> fNeedSizeAccounting (AddToBlock env mp b it)"
    if "within_limits env mp b" "fNeedSizeAccounting b" "it \<notin> set (inBlock b)"
      "\<not> isStillDependent mp b it" "fst (TestForBlock env mp b it)" for b it
    using within_limits_AddToBlock [OF ids that(1,3,5)] that(2) by (simp add: AddToBlock_sel)
  show "within_limits env mp (b\<lparr>lastFewTxs := l, blockFinished := f\<rparr>)"
    if "within_limits env mp b" for b l f
    using that by (rule within_limits_flags)
  show "within_limits env mp (b\<lparr>fNeedSizeAccounting := fNeedSizeAccounting a1\<rparr>)"
    if "within_limits env mp b" "fNeedSizeAccounting b" for b
    using that by (auto simp: within_limits_def)
qed

text \<open>The constructor keeps the weight cap at 4000 or more and the size cap at 1000 or more.\<close>

lemma BlockAssembler_ctor_limits:
  "4000 \<le> nBlockMaxWeight (BlockAssembler_ctor dw ds mw ms bw bs)"
  "1000 \<le> nBlockMaxSize (BlockAssembler_ctor dw ds mw ms bw bs)"
  by (simp_all add: BlockAssembler_ctor_def BlockAssembler_limits_def Let_def
      split: option.splits prod.splits)

lemma finish_counters:
  "nBlockWeight (a\<lparr>pblocktemplate := t\<rparr>) = nBlockWeight a"
  "nBlockSize (a\<lparr>pblocktemplate := t\<rparr>) = nBlockSize a"
  "nBlockSigOpsCost (a\<lparr>pblocktemplate := t\<rparr>) = nBlockSigOpsCost a"
  by simp_all

text \<open>
  Claim C1. In a returned template the block weight counter is 4000 plus the weights of
  the transactions after the coinbase and at most \<open>nBlockMaxWeight\<close>; the sigop cost
  counter is 400 plus their sigop costs and at most \<open>MAX_BLOCK_SIGOPS_COST\<close>; and when
  \<open>fNeedSizeAccounting\<close> holds the size counter is 1000 plus their serialized sizes and
  at most \<open>nBlockMaxSize\<close>. The caps are as the constructor leaves them, 400 sigops fit
  the block, the mempool's aggregates are consistent, and an iterator is the hash of its
  transaction.
\<close>

theorem block_limits:
  assumes run: "CreateNewBlock fuel env mp pindexPrev a0 script fPoS pStakeReward fWit
                  = Some (Inr (Some t, reward, a))"
    and ids: "\<And>h. hash (GetTx (deref mp h)) = h"
    and awf: "aggregates_wf mp" and dwf: "descendants_wf mp"
    and caps: "4000 \<le> nBlockMaxWeight a0" "1000 \<le> nBlockMaxSize a0"
      "400 \<le> MAX_BLOCK_SIGOPS_COST env"
  shows "nBlockWeight a = 4000 + (\<Sum>tx \<leftarrow> tl (vtx (block t)). GetTxWeight (deref mp (hash tx)))
       \<and> nBlockWeight a \<le> nBlockMaxWeight a
       \<and> (fNeedSizeAccounting a \<longrightarrow>
             nBlockSize a = 1000 + (\<Sum>tx \<leftarrow> tl (vtx (block t)). GetSerializeSize env tx)
             \<and> nBlockSize a \<le> nBlockMaxSize a)
       \<and> nBlockSigOpsCost a
           = 400 + (\<Sum>tx \<leftarrow> tl (vtx (block t)). GetSigOpCost (deref mp (hash tx)))
       \<and> nBlockSigOpsCost a \<le> MAX_BLOCK_SIGOPS_COST env"
proof -
  from run obtain k a2 a3 where
    pri: "addPriorityTxs fuel env mp fPoS
       (nTime (vtx (block (pblocktemplate (CreateNewBlock_start env pindexPrev fWit (resetBlock a0)))) ! 0))
       1 (CreateNewBlock_start env pindexPrev fWit (resetBlock a0)) = Some (Inr (k, a2))"
    and pkg: "addPackageTxs fuel env mp a2 = Some (Inr a3)"
    and fin: "CreateNewBlock_finish env pindexPrev script fPoS pStakeReward k a3 = (t, reward)"
    and a: "a = a3\<lparr>pblocktemplate := t\<rparr>"
    by (rule CreateNewBlock_SomeE)
  have "within_limits env mp a2"
    by (rule within_limits_addPriorityTxs [OF ids pri]) (rule within_limits_start [OF caps])
  then have wl: "within_limits env mp a3"
    by (rule within_limits_addPackageTxs [OF ids awf dwf pkg])
  have tl_eq: "tl (vtx (block t)) = tl (vtx (block (pblocktemplate a3)))"
    by (rule finish_fees(2) [OF fin])
  from wl show ?thesis
    unfolding a tl_eq within_limits_def by auto
qed

lemma ex_aggregates_wf: "aggregates_wf ex_mp"
  unfolding aggregates_wf_def
proof (intro allI)
  fix x :: nat
  consider "x = 13" | "x \<noteq> 13" by blast
  then show "x \<notin> set (CalculateMemPoolAncestors ex_mp x)
        \<and> (\<Sum>a \<in> insert x (set (CalculateMemPoolAncestors ex_mp x)). GetTxSize (deref ex_mp a))
            \<le> GetSizeWithAncestors (deref ex_mp x)
        \<and> (\<Sum>a \<in> insert x (set (CalculateMemPoolAncestors ex_mp x)). GetSigOpCost (deref ex_mp a))
            \<le> GetSigOpCostWithAncestors (deref ex_mp x)
        \<and> 0 \<le> GetSigOpCost (deref ex_mp x)
        \<and> GetTxWeight (deref ex_mp x) \<le> 4 * GetTxSize (deref ex_mp x)"
    by cases (simp_all add: ex_mp_sel ex_entry_sel)
qed

lemma ex_descendants_wf: "descendants_wf ex_mp"
  by (auto simp: descendants_wf_def ex_mp_sel split: if_splits)

theorem block_limits_witness:
  "CreateNewBlock ex_fuel ex_env ex_mp ex_tip ex_asm [] False None True
     = Some (Inr (Some ex_t, None, ex_a3\<lparr>pblocktemplate := ex_t\<rparr>))
   \<and> (\<forall>h. hash (GetTx (deref ex_mp h)) = h)
   \<and> aggregates_wf ex_mp \<and> descendants_wf ex_mp
   \<and> 4000 \<le> nBlockMaxWeight ex_asm \<and> 1000 \<le> nBlockMaxSize ex_asm
   \<and> 400 \<le> MAX_BLOCK_SIGOPS_COST ex_env
   \<and> nBlockWeight ex_a3 = 4800 \<and> nBlockMaxWeight ex_a3 = 3000000
   \<and> fNeedSizeAccounting ex_a3 \<and> nBlockSize ex_a3 = 1200 \<and> nBlockMaxSize ex_a3 = 750000
   \<and> nBlockSigOpsCost ex_a3 = 408"
proof -
  have caps: "4000 \<le> nBlockMaxWeight ex_asm" "1000 \<le> nBlockMaxSize ex_asm"
    "400 \<le> MAX_BLOCK_SIGOPS_COST ex_env"
    by (simp_all add: ex_asm_def BlockAssembler_ctor_limits ex_env_sel)
  from block_limits [OF ex_CreateNewBlock ex_ids ex_aggregates_wf ex_descendants_wf caps]
  show ?thesis
    using ex_CreateNewBlock ex_ids ex_aggregates_wf ex_descendants_wf caps
    by (simp add: ex_a3_sel)
qed

section \<open>Invariant B of the modified entries\<close>

lemma addPackageTxs_from_start:
  "addPackageTxs fuel env mp a = iterate fuel (addPackageTxs_body env mp) (addPackageTxs_start mp a)"
  by (simp add: addPackageTxs_def addPackageTxs_start_def)

lemma ex_addPackageTxs_start:
  "addPackageTxs_start ex_mp ex_a2 = ex_pkg [13, 11, 12] [ex_mod 200 6000] [] ex_a2"
  by (simp add: addPackageTxs_start_def ex_pkg_def ex_a2_sel ex_mp_sel ex_UpdatePackagesForAdded_2)

lemma ex_after_1:
  "addPackageTxs_after 1 ex_env ex_mp ex_a2 = Some (ex_pkg [11, 12] [ex_mod 200 6000] [] ex_a2)"
  by (simp add: ex_addPackageTxs_start ex_pkg_step1)

lemma ex_after_3:
  "addPackageTxs_after 3 ex_env ex_mp ex_a2 = Some (ex_pkg [12] [ex_mod 200 5100] [13] ex_a3)"
  by (simp add: numeral_3_eq_3 ex_addPackageTxs_start ex_pkg_step1 ex_pkg_step2 ex_pkg_step3)

lemma committed_ancestors_Un:
  "committed_ancestors mp (C \<union> D) e = committed_ancestors mp C e \<union> committed_ancestors mp D e"
  by (auto simp: committed_ancestors_def)

lemma finite_committed_ancestors [simp]: "finite (committed_ancestors mp C e)"
  by (simp add: committed_ancestors_def)

lemma committed_ancestors_size_le:
  assumes awf: "aggregates_wf mp"
  shows "(\<Sum>a \<in> committed_ancestors mp C e. GetTxSize (deref mp a)) \<le> GetSizeWithAncestors (deref mp e)"
proof -
  have "(\<Sum>a \<in> committed_ancestors mp C e. GetTxSize (deref mp a))
          \<le> (\<Sum>a \<in> insert e (set (CalculateMemPoolAncestors mp e)). GetTxSize (deref mp a))"
    by (rule sum_mono2) (auto simp: committed_ancestors_def)
  also have "\<dots> \<le> GetSizeWithAncestors (deref mp e)"
    using awf unfolding aggregates_wf_def by blast
  finally show ?thesis .
qed

lemma modified_exact_subtract:
  assumes awf: "aggregates_wf mp"
    and ex: "modified_exact mp C m"
    and dF: "distinct F" and F: "set F = committed_ancestors mp D (iter m)" and CD: "C \<inter> D = {}"
  shows "modified_exact mp (C \<union> D) (subtract_parents mp F m)"
proof -
  let ?e = "iter m"
  let ?CA = "committed_ancestors mp C ?e" and ?DA = "committed_ancestors mp D ?e"
  have disj: "?CA \<inter> ?DA = {}" using CD by (auto simp: committed_ancestors_def)
  have split: "sum f (committed_ancestors mp (C \<union> D) ?e) = sum f ?CA + sum f ?DA"
    for f :: "txiter \<Rightarrow> 'b::comm_monoid_add"
    unfolding committed_ancestors_Un by (rule sum.union_disjoint [OF _ _ disj]) simp_all
  have lst: "sum_list (map f F) = sum f ?DA" for f :: "txiter \<Rightarrow> 'b::comm_monoid_add"
    using sum_list_distinct_conv [OF dF, of f] by (simp add: F)
  have "(\<Sum>a \<in> committed_ancestors mp (C \<union> D) ?e. GetTxSize (deref mp a))
          \<le> GetSizeWithAncestors (deref mp ?e)"
    by (rule committed_ancestors_size_le [OF awf])
  then have le: "(\<Sum>a \<in> ?CA. GetTxSize (deref mp a)) + (\<Sum>a \<in> ?DA. GetTxSize (deref mp a))
                   \<le> GetSizeWithAncestors (deref mp ?e)"
    by (simp add: split)
  from ex have sz: "int (nSizeWithAncestors m)
        = int (GetSizeWithAncestors (deref mp ?e)) - (\<Sum>a \<in> ?CA. int (GetTxSize (deref mp a)))"
    by (simp add: modified_exact_def)
  have iS: "int (sum f A) = (\<Sum>a \<in> A. int (f a))" for f :: "txiter \<Rightarrow> nat" and A
    by (rule of_nat_sum)
  have m: "nSizeWithAncestors m + (\<Sum>a \<in> ?CA. GetTxSize (deref mp a))
             = GetSizeWithAncestors (deref mp ?e)"
  proof -
    have "int (nSizeWithAncestors m + (\<Sum>a \<in> ?CA. GetTxSize (deref mp a)))
            = int (GetSizeWithAncestors (deref mp ?e))"
      unfolding of_nat_add iS sz by simp
    then show ?thesis by (rule of_nat_eq_iff [THEN iffD1])
  qed
  have DAle: "(\<Sum>a \<in> ?DA. GetTxSize (deref mp a)) \<le> nSizeWithAncestors m"
    using m le by linarith
  have size': "int (nSizeWithAncestors m - (\<Sum>a \<in> ?DA. GetTxSize (deref mp a)))
          = int (GetSizeWithAncestors (deref mp ?e))
            - ((\<Sum>a \<in> ?CA. int (GetTxSize (deref mp a))) + (\<Sum>a \<in> ?DA. int (GetTxSize (deref mp a))))"
    unfolding of_nat_diff [OF DAle] iS sz by simp
  from ex have fees: "nModFeesWithAncestors m
        = GetModFeesWithAncestors (deref mp ?e) - (\<Sum>a \<in> ?CA. GetModifiedFee (deref mp a))"
    and sig: "nSigOpCostWithAncestors m
        = GetSigOpCostWithAncestors (deref mp ?e) - (\<Sum>a \<in> ?CA. GetSigOpCost (deref mp a))"
    by (simp_all add: modified_exact_def)
  show ?thesis
    unfolding modified_exact_def subtract_parents_sel lst split
    using size' fees sig by simp
qed

lemma modified_exact_base:
  "committed_ancestors mp C e = {} \<Longrightarrow> modified_exact mp C (CTxMemPoolModifiedEntry_of mp e)"
  by (simp add: modified_exact_def CTxMemPoolModifiedEntry_of_def)

lemma tracked_UpdatePackagesForAdded:
  assumes awf: "aggregates_wf mp" and dwf: "descendants_wf mp" and dc: "descendants_complete mp"
    and dA: "distinct A" and disj: "C \<inter> set A = {}" and eA: "e \<notin> set A"
    and pre: "tracked mp C mm e"
  shows "tracked mp (C \<union> set A) (UpdatePackagesForAdded mp A mm) e"
proof -
  let ?F = "filter (\<lambda>a. e \<in> set (CalculateDescendants mp a)) A"
  have F: "set ?F = committed_ancestors mp (set A) e"
  proof -
    have "e \<in> set (CalculateDescendants mp a) \<longleftrightarrow> a \<in> set (CalculateMemPoolAncestors mp e)"
      if "a \<in> set A" for a
    proof -
      from that eA have "e \<noteq> a" by blast
      then show ?thesis
        using dwf dc unfolding descendants_wf_def descendants_complete_def by blast
    qed
    then show ?thesis by (auto simp: committed_ancestors_def)
  qed
  have dF: "distinct ?F" using dA by simp
  show ?thesis
  proof (cases "?F = []")
    case True
    then have "committed_ancestors mp (set A) e = {}" using F by simp
    then have CA: "committed_ancestors mp (C \<union> set A) e = committed_ancestors mp C e"
      by (simp add: committed_ancestors_Un)
    have find: "mm_find e (UpdatePackagesForAdded mp A mm) = mm_find e mm"
      using True by (simp add: mm_find_UpdatePackagesForAdded)
    show ?thesis
    proof (cases "mm_find e mm")
      case None
      with pre show ?thesis by (simp add: tracked_def find CA)
    next
      case (Some m)
      with pre have "iter m = e" by (simp add: tracked_def)
      with pre Some CA show ?thesis
        by (simp add: tracked_def find modified_exact_def)
    qed
  next
    case False
    define start where "start = (case mm_find e mm of None \<Rightarrow> CTxMemPoolModifiedEntry_of mp e | Some m \<Rightarrow> m)"
    have find: "mm_find e (UpdatePackagesForAdded mp A mm) = Some (subtract_parents mp ?F start)"
      using False eA by (simp add: mm_find_UpdatePackagesForAdded start_def)
    have st: "iter start = e \<and> modified_exact mp C start"
    proof (cases "mm_find e mm")
      case None
      with pre have "committed_ancestors mp C e = {}" by (simp add: tracked_def)
      then have "modified_exact mp C (CTxMemPoolModifiedEntry_of mp e)"
        by (rule modified_exact_base)
      moreover have "iter (CTxMemPoolModifiedEntry_of mp e) = e"
        by (simp add: CTxMemPoolModifiedEntry_of_def)
      ultimately show ?thesis using None by (simp add: start_def)
    next
      case (Some m)
      with pre show ?thesis by (simp add: start_def tracked_def)
    qed
    have F': "set ?F = committed_ancestors mp (set A) (iter start)" using F st by simp
    have "modified_exact mp (C \<union> set A) (subtract_parents mp ?F start)"
      using st by (intro modified_exact_subtract [OF awf _ dF F' disj]) simp
    moreover have "committed_ancestors mp (C \<union> set A) e \<noteq> {}"
      using False F by (auto simp: committed_ancestors_Un)
    ultimately show ?thesis
      using st by (simp add: tracked_def find subtract_parents_sel)
  qed
qed

lemma tracked_cong:
  "mm_find e mm' = mm_find e mm \<Longrightarrow> tracked mp C mm' e = tracked mp C mm e"
  by (simp add: tracked_def)

lemma modified_tracked_candidate:
  assumes awf: "aggregates_wf mp" and dwf: "descendants_wf mp" and dc: "descendants_complete mp"
    and inv: "modified_tracked mp s"
    and cand: "addPackageTxs_candidate env mp s it modit = Continue s'"
  shows "modified_tracked mp s'"
proof -
  let ?a = "asm s"
  let ?pkg = "package_of mp ?a it"
  let ?M = "SortForBlock mp ?pkg"
  from cand have notin: "it \<notin> set (inBlock ?a)"
    by (cases "it \<in> set (inBlock ?a)") (simp_all add: candidate_result)
  have nofloor: "\<not> package_fees mp it modit < minRelayTxFee_GetFee env (package_size mp it modit)"
    using cand notin by (auto simp: candidate_result split: if_splits)
  show ?thesis
  proof (cases "fst (TestPackage env ?a (package_size mp it modit) (package_sigops mp it modit))
                \<and> fst (TestPackageTransactions env mp ?a ?pkg)")
    case False
    with cand notin nofloor have s': "s' = package_failed s it (modit \<noteq> None)"
      by (auto simp: candidate_result split: if_splits)
    show ?thesis
    proof (cases "modit = None")
      case True
      with s' inv show ?thesis by (simp add: package_failed_def)
    next
      case False
      show ?thesis
        unfolding modified_tracked_def
      proof
        fix e
        from inv have "e \<in> set (inBlock ?a) \<or> e \<in> set (failedTx s)
           \<or> tracked mp (set (inBlock ?a)) (mapModifiedTx s) e"
          unfolding modified_tracked_def by blast
        moreover have "tracked mp (set (inBlock ?a)) (mm_erase it (mapModifiedTx s)) e
                        = tracked mp (set (inBlock ?a)) (mapModifiedTx s) e" if "e \<noteq> it"
          using that by (intro tracked_cong) (simp add: mm_find_erase)
        moreover have sel: "asm s' = ?a" "failedTx s' = set_insert it (failedTx s)"
          "mapModifiedTx s' = mm_erase it (mapModifiedTx s)"
          using False by (simp_all add: s' package_failed_def)
        ultimately show "e \<in> set (inBlock (asm s')) \<or> e \<in> set (failedTx s')
           \<or> tracked mp (set (inBlock (asm s'))) (mapModifiedTx s') e"
          unfolding sel by (cases "e = it") auto
      qed
    qed
  next
    case True
    with cand notin nofloor
    have s': "s' = s\<lparr>asm := AddPackage env mp ?M ?a,
                     mapModifiedTx := UpdatePackagesForAdded mp ?pkg (fold mm_erase ?M (mapModifiedTx s))\<rparr>"
      by (simp add: candidate_result)
    have inB: "set (inBlock (AddPackage env mp ?M ?a)) = set (inBlock ?a) \<union> set ?pkg"
      by (auto simp: AddPackage_sel set_fold_set_insert SortForBlock_props)
    have disj: "set (inBlock ?a) \<inter> set ?pkg = {}" using notin by (auto simp: set_package_of)
    show ?thesis
      unfolding modified_tracked_def
    proof
      fix e
      from inv have pre: "e \<in> set (inBlock ?a) \<or> e \<in> set (failedTx s)
           \<or> tracked mp (set (inBlock ?a)) (mapModifiedTx s) e"
        unfolding modified_tracked_def by blast
      have "tracked mp (set (inBlock ?a) \<union> set ?pkg)
              (UpdatePackagesForAdded mp ?pkg (fold mm_erase ?M (mapModifiedTx s))) e"
        if e: "e \<notin> set ?pkg" and t: "tracked mp (set (inBlock ?a)) (mapModifiedTx s) e"
      proof (rule tracked_UpdatePackagesForAdded [OF awf dwf dc distinct_package_of disj e])
        have "mm_find e (fold mm_erase ?M (mapModifiedTx s)) = mm_find e (mapModifiedTx s)"
          using e by (simp add: mm_find_fold_erase SortForBlock_props)
        then show "tracked mp (set (inBlock ?a)) (fold mm_erase ?M (mapModifiedTx s)) e"
          using t by (simp add: tracked_def)
      qed
      moreover have sel: "asm s' = AddPackage env mp ?M ?a" "failedTx s' = failedTx s"
        "mapModifiedTx s' = UpdatePackagesForAdded mp ?pkg (fold mm_erase ?M (mapModifiedTx s))"
        by (simp_all add: s')
      ultimately show "e \<in> set (inBlock (asm s')) \<or> e \<in> set (failedTx s')
           \<or> tracked mp (set (inBlock (asm s'))) (mapModifiedTx s') e"
        using pre unfolding sel inB by (cases "e \<in> set ?pkg") blast+
    qed
  qed
qed

lemma modified_tracked_mi [simp]: "modified_tracked mp (s\<lparr>mi := r\<rparr>) = modified_tracked mp s"
  by (simp add: modified_tracked_def)

lemma modified_tracked_body:
  assumes awf: "aggregates_wf mp" and dwf: "descendants_wf mp" and dc: "descendants_complete mp"
    and inv: "modified_tracked mp s"
    and body: "addPackageTxs_body env mp s = Continue s'"
  shows "modified_tracked mp s'"
  using body
proof (cases rule: addPackageTxs_body_cases)
  case finished
  then show ?thesis by simp
next
  case (skip it rest)
  with inv show ?thesis by simp
next
  case (fromMapTx it rest)
  have "modified_tracked mp (s\<lparr>mi := rest\<rparr>)" using inv by simp
  then show ?thesis
    by (rule modified_tracked_candidate [OF awf dwf dc _ fromMapTx(3) [symmetric]])
next
  case (fromModified modit)
  show ?thesis
    by (rule modified_tracked_candidate [OF awf dwf dc inv fromModified(2) [symmetric]])
qed

lemma modified_tracked_start:
  assumes awf: "aggregates_wf mp" and dwf: "descendants_wf mp" and dc: "descendants_complete mp"
    and dist: "distinct (inBlock a)"
  shows "modified_tracked mp (addPackageTxs_start mp a)"
proof -
  have "tracked mp ({} \<union> set (inBlock a)) (UpdatePackagesForAdded mp (inBlock a) []) e"
    if "e \<notin> set (inBlock a)" for e
    by (rule tracked_UpdatePackagesForAdded [OF awf dwf dc dist _ that])
       (simp_all add: tracked_def mm_find_def committed_ancestors_def)
  then show ?thesis
    by (auto simp: modified_tracked_def addPackageTxs_start_def)
qed

lemma modified_tracked_after:
  assumes awf: "aggregates_wf mp" and dwf: "descendants_wf mp" and dc: "descendants_complete mp"
    and dist: "distinct (inBlock a)"
  shows "addPackageTxs_after n env mp a = Some s \<Longrightarrow> modified_tracked mp s"
proof (induction n arbitrary: s)
  case 0
  then show ?case using modified_tracked_start [OF awf dwf dc dist] by simp
next
  case (Suc n)
  from Suc.prems obtain s0 where s0: "addPackageTxs_after n env mp a = Some s0"
    and body: "addPackageTxs_body env mp s0 = Continue s"
    by (auto split: option.splits step.splits)
  from Suc.IH [OF s0] body show ?case
    by (rule modified_tracked_body [OF awf dwf dc])
qed

text \<open>
  What the loop of \<open>addPackageTxs\<close> does keep. After any number of passes, an entry that
  is neither in the block nor in \<open>failedTx\<close> has a modified entry exactly when it has an
  ancestor in the block, and the aggregates of that modified entry are those of the
  mempool entry minus the own size, modified fee and sigop cost of each ancestor in the
  block, each subtracted once. The mempool's aggregates are consistent, and an entry is
  a descendant of exactly its ancestors' entries.
\<close>

lemma modified_entries_tracked:
  assumes awf: "aggregates_wf mp" and dwf: "descendants_wf mp" and dc: "descendants_complete mp"
    and dist: "distinct (inBlock a)"
    and after: "addPackageTxs_after n env mp a = Some s"
    and e: "e \<notin> set (inBlock (asm s))" "e \<notin> set (failedTx s)"
  shows "tracked mp (set (inBlock (asm s))) (mapModifiedTx s) e"
  using modified_tracked_after [OF awf dwf dc dist after] e
  unfolding modified_tracked_def by blast

lemma ex_descendants_complete: "descendants_complete ex_mp"
  by (auto simp: descendants_complete_def ex_mp_sel split: if_splits)

lemma ex_modified_entries_tracked:
  "aggregates_wf ex_mp \<and> descendants_wf ex_mp \<and> descendants_complete ex_mp
   \<and> distinct (inBlock ex_a2)
   \<and> addPackageTxs_after 1 ex_env ex_mp ex_a2 = Some (ex_pkg [11, 12] [ex_mod 200 6000] [] ex_a2)
   \<and> 13 \<notin> set (inBlock (asm (ex_pkg [11, 12] [ex_mod 200 6000] [] ex_a2)))
   \<and> 13 \<notin> set (failedTx (ex_pkg [11, 12] [ex_mod 200 6000] [] ex_a2))
   \<and> tracked ex_mp (set (inBlock (asm (ex_pkg [11, 12] [ex_mod 200 6000] [] ex_a2))))
        (mapModifiedTx (ex_pkg [11, 12] [ex_mod 200 6000] [] ex_a2)) 13
   \<and> mm_find 13 (mapModifiedTx (ex_pkg [11, 12] [ex_mod 200 6000] [] ex_a2))
        = Some (ex_mod 200 6000)
   \<and> committed_ancestors ex_mp (set (inBlock ex_a2)) 13 = {12}
   \<and> GetSizeWithAncestors (deref ex_mp 13) = 300 \<and> GetTxSize (deref ex_mp 12) = 100"
proof -
  have dist: "distinct (inBlock ex_a2)" by (simp add: ex_a2_sel)
  have e: "13 \<notin> set (inBlock (asm (ex_pkg [11, 12] [ex_mod 200 6000] [] ex_a2)))"
    "13 \<notin> set (failedTx (ex_pkg [11, 12] [ex_mod 200 6000] [] ex_a2))"
    by (simp_all add: ex_pkg_def ex_a2_sel)
  from modified_entries_tracked [OF ex_aggregates_wf ex_descendants_wf ex_descendants_complete
      dist ex_after_1 e]
  show ?thesis
    using ex_aggregates_wf ex_descendants_wf ex_descendants_complete dist ex_after_1 e
    by (simp add: ex_pkg_def ex_mod_def mm_find_def committed_ancestors_def ex_a2_sel
        ex_mp_sel ex_entry_sel)
qed

lemma ex_after_5:
  "addPackageTxs_after 4 ex_env ex_mp ex_a2 = Some (ex_pkg [] [ex_mod 200 5100] [13] ex_a3)"
  "addPackageTxs_after 5 ex_env ex_mp ex_a2 = Some (ex_pkg [] [] [13] ex_a3)"
proof -
  have 4: "addPackageTxs_after (Suc 3) ex_env ex_mp ex_a2
             = Some (ex_pkg [] [ex_mod 200 5100] [13] ex_a3)"
    unfolding addPackageTxs_after.simps ex_after_3 by (simp add: ex_pkg_step4)
  then show "addPackageTxs_after 4 ex_env ex_mp ex_a2 = Some (ex_pkg [] [ex_mod 200 5100] [13] ex_a3)"
    by simp
  have "addPackageTxs_after (Suc (Suc 3)) ex_env ex_mp ex_a2 = Some (ex_pkg [] [] [13] ex_a3)"
    unfolding addPackageTxs_after.simps(2) [of "Suc 3"] 4 by (simp add: ex_pkg_step5)
  then show "addPackageTxs_after 5 ex_env ex_mp ex_a2 = Some (ex_pkg [] [] [13] ex_a3)"
    by simp
qed

lemma ex_pkg_reevaluated:
  "addPackageTxs_body ex_env ex_mp (ex_pkg [] [ex_mod 200 5100] [13] ex_a3)
     = addPackageTxs_candidate ex_env ex_mp (ex_pkg [] [ex_mod 200 5100] [13] ex_a3) 13
         (Some (ex_mod 200 5100))"
  by (simp add: addPackageTxs_body_def ex_pkg_def ex_mod_def)

lemma ex_invariant_B_fails:
  "\<not> invariant_B ex_mp (ex_pkg [12] [ex_mod 200 5100] [13] ex_a3)"
  by (simp add: invariant_B_def modified_exact_def committed_ancestors_def ex_pkg_def
      ex_mod_def ex_a3_sel ex_mp_sel ex_entry_sel)

text \<open>
  Claim C3 fails in the code. Over the pool of three transactions, transaction 12 is in
  the block from the priority phase, so 13 starts with a modified entry of size 200. It
  is taken first, is not final, and its modified entry is erased and 13 is put in
  \<open>failedTx\<close>. Then 11 is added, and \<open>UpdatePackagesForAdded\<close> finds no modified entry
  for 13 and inserts a fresh one from the mempool entry, subtracting 11 only: size 200,
  fees 5100 and sigop cost 8, where the two committed ancestors 11 and 12 together give
  100, 5000 and 4. Two passes later that entry is the best of the modified set, and 13,
  though in \<open>failedTx\<close>, is tested again with these aggregates.
\<close>

theorem modified_entry_not_exact:
  "addPackageTxs_after 3 ex_env ex_mp ex_a2 = Some (ex_pkg [12] [ex_mod 200 5100] [13] ex_a3)
   \<and> ex_mod 200 5100 \<in> set (mapModifiedTx (ex_pkg [12] [ex_mod 200 5100] [13] ex_a3))
   \<and> \<not> modified_exact ex_mp (set (inBlock (asm (ex_pkg [12] [ex_mod 200 5100] [13] ex_a3))))
         (ex_mod 200 5100)
   \<and> mm_find 13 (mapModifiedTx (ex_pkg [12] [ex_mod 200 5100] [13] ex_a3)) = Some (ex_mod 200 5100)
   \<and> committed_ancestors ex_mp (set (inBlock (asm (ex_pkg [12] [ex_mod 200 5100] [13] ex_a3)))) 13
       = {11, 12}
   \<and> nSizeWithAncestors (ex_mod 200 5100) = 200
   \<and> GetSizeWithAncestors (deref ex_mp 13) = 300
   \<and> GetTxSize (deref ex_mp 11) = 100 \<and> GetTxSize (deref ex_mp 12) = 100
   \<and> nModFeesWithAncestors (ex_mod 200 5100) = 5100
   \<and> GetModFeesWithAncestors (deref ex_mp 13) = 6100
   \<and> GetModifiedFee (deref ex_mp 11) = 1000 \<and> GetModifiedFee (deref ex_mp 12) = 100
   \<and> nSigOpCostWithAncestors (ex_mod 200 5100) = 8
   \<and> GetSigOpCostWithAncestors (deref ex_mp 13) = 12
   \<and> GetSigOpCost (deref ex_mp 11) = 4 \<and> GetSigOpCost (deref ex_mp 12) = 4
   \<and> 13 \<in> set (failedTx (ex_pkg [12] [ex_mod 200 5100] [13] ex_a3))
   \<and> addPackageTxs_after 4 ex_env ex_mp ex_a2 = Some (ex_pkg [] [ex_mod 200 5100] [13] ex_a3)
   \<and> addPackageTxs_body ex_env ex_mp (ex_pkg [] [ex_mod 200 5100] [13] ex_a3)
       = addPackageTxs_candidate ex_env ex_mp (ex_pkg [] [ex_mod 200 5100] [13] ex_a3) 13
           (Some (ex_mod 200 5100))
   \<and> package_size ex_mp 13 (Some (ex_mod 200 5100)) = 200"
proof -
  have state: "ex_mod 200 5100 \<in> set (mapModifiedTx (ex_pkg [12] [ex_mod 200 5100] [13] ex_a3))
   \<and> \<not> modified_exact ex_mp (set (inBlock (asm (ex_pkg [12] [ex_mod 200 5100] [13] ex_a3))))
         (ex_mod 200 5100)
   \<and> mm_find 13 (mapModifiedTx (ex_pkg [12] [ex_mod 200 5100] [13] ex_a3)) = Some (ex_mod 200 5100)
   \<and> committed_ancestors ex_mp (set (inBlock (asm (ex_pkg [12] [ex_mod 200 5100] [13] ex_a3)))) 13
       = {11, 12}
   \<and> 13 \<in> set (failedTx (ex_pkg [12] [ex_mod 200 5100] [13] ex_a3))"
    by (simp add: modified_exact_def committed_ancestors_def ex_pkg_def
        ex_mod_def ex_a3_sel ex_mp_sel ex_entry_sel mm_find_def)
  have vals: "nSizeWithAncestors (ex_mod 200 5100) = 200
   \<and> GetSizeWithAncestors (deref ex_mp 13) = 300
   \<and> GetTxSize (deref ex_mp 11) = 100 \<and> GetTxSize (deref ex_mp 12) = 100
   \<and> nModFeesWithAncestors (ex_mod 200 5100) = 5100
   \<and> GetModFeesWithAncestors (deref ex_mp 13) = 6100
   \<and> GetModifiedFee (deref ex_mp 11) = 1000 \<and> GetModifiedFee (deref ex_mp 12) = 100
   \<and> nSigOpCostWithAncestors (ex_mod 200 5100) = 8
   \<and> GetSigOpCostWithAncestors (deref ex_mp 13) = 12
   \<and> GetSigOpCost (deref ex_mp 11) = 4 \<and> GetSigOpCost (deref ex_mp 12) = 4
   \<and> package_size ex_mp 13 (Some (ex_mod 200 5100)) = 200"
    by (simp add: ex_mod_def ex_mp_sel ex_entry_sel package_size_def)
  from state vals ex_after_3 ex_after_5(1) ex_pkg_reevaluated show ?thesis by blast
qed

section \<open>What CreateNewBlock returns\<close>

lemma iterate_mono:
  "iterate n body s = Some r \<Longrightarrow> iterate (n + k) body s = Some r"
proof (induction n arbitrary: s)
  case 0
  then show ?case by simp
next
  case (Suc n)
  then show ?case by (cases "body s") simp_all
qed

lemma iterate_terminates:
  assumes wf: "wf R" and I: "I s"
    and step: "\<And>s s'. I s \<Longrightarrow> body s = Continue s' \<Longrightarrow> I s' \<and> (s', s) \<in> R"
    and noassert: "\<And>s. I s \<Longrightarrow> body s \<noteq> AssertFail"
  shows "\<exists>n r. iterate n body s = Some (Inr r)"
  using wf I
proof (induction s rule: wf_induct_rule)
  case (less s)
  show ?case
  proof (cases "body s")
    case (Continue s')
    from step [OF less.prems Continue] have "I s'" "(s', s) \<in> R" by simp_all
    from less.IH [OF this(2) this(1)] obtain n r where "iterate n body s' = Some (Inr r)" by blast
    with Continue have "iterate (Suc n) body s = Some (Inr r)" by simp
    then show ?thesis by blast
  next
    case (Break r)
    then have "iterate (Suc 0) body s = Some (Inr r)" by simp
    then show ?thesis by blast
  next
    case AssertFail
    with noassert [OF less.prems] show ?thesis by simp
  qed
qed

lemma addPriorityTxs_body_ContinueE:
  assumes "addPriorityTxs_body env mp fPoS blockTime n s = Continue s'"
  obtains (unfit) "vecPriority s \<noteq> []" "snd (pri_top env s) \<notin> set (inBlock (asm_pri s))"
      "s' = pri_popped env s"
  | (wait) "vecPriority s \<noteq> []" "snd (pri_top env s) \<notin> set (inBlock (asm_pri s))"
      "s' = (pri_popped env s)\<lparr>waitPriMap :=
              waitPriMap_insert (snd (pri_top env s), fst (pri_top env s)) (waitPriMap s)\<rparr>"
  | (rejected) "vecPriority s \<noteq> []" "snd (pri_top env s) \<notin> set (inBlock (asm_pri s))"
      "s' = (pri_popped env s)\<lparr>asm_pri :=
              snd (TestForBlock env mp (asm_pri s) (snd (pri_top env s)))\<rparr>"
  | (added) "vecPriority s \<noteq> []" "snd (pri_top env s) \<notin> set (inBlock (asm_pri s))"
      "s' = fold requeue_child (setEntries_of (GetMemPoolChildren mp (snd (pri_top env s))))
              ((pri_popped env s)\<lparr>asm_pri :=
                  AddToBlock env mp (asm_pri s) (snd (pri_top env s))\<rparr>)"
proof -
  note body = assms [unfolded addPriorityTxs_body_flat]
  have ne: "\<not> (vecPriority s = [] \<or> blockFinished (asm_pri s))"
    using body by (cases "vecPriority s = [] \<or> blockFinished (asm_pri s)") simp_all
  note body1 = body [unfolded if_not_P [OF ne]]
  have notin: "snd (pri_top env s) \<notin> set (inBlock (asm_pri s))"
    using body1 by (cases "snd (pri_top env s) \<in> set (inBlock (asm_pri s))") simp_all
  note body2 = body1 [unfolded if_not_P [OF notin]]
  from ne have nev: "vecPriority s \<noteq> []" by simp
  show ?thesis
  proof (cases "pri_unfit env mp fPoS blockTime s")
    case True
    with body2 have "s' = pri_popped env s" by simp
    with nev notin show ?thesis by (rule unfit)
  next
    case nu: False
    note body3 = body2 [unfolded if_not_P [OF nu]]
    show ?thesis
    proof (cases "isStillDependent mp (asm_pri s) (snd (pri_top env s))")
      case True
      with body3 have "s' = (pri_popped env s)\<lparr>waitPriMap :=
              waitPriMap_insert (snd (pri_top env s), fst (pri_top env s)) (waitPriMap s)\<rparr>"
        by simp
      with nev notin show ?thesis by (rule wait)
    next
      case nd: False
      note body4 = body3 [unfolded if_not_P [OF nd]]
      show ?thesis
      proof (cases "fst (TestForBlock env mp (asm_pri s) (snd (pri_top env s)))")
        case False
        with body4 have "s' = (pri_popped env s)\<lparr>asm_pri :=
              snd (TestForBlock env mp (asm_pri s) (snd (pri_top env s)))\<rparr>"
          by simp
        with nev notin show ?thesis by (rule rejected)
      next
        case True
        with body4 have "s' = fold requeue_child
              (setEntries_of (GetMemPoolChildren mp (snd (pri_top env s))))
              ((pri_popped env s)\<lparr>asm_pri :=
                  AddToBlock env mp (asm_pri s) (snd (pri_top env s))\<rparr>)"
          by (simp split: if_splits)
        with nev notin show ?thesis by (rule added)
      qed
    qed
  qed
qed

lemma wf_pri_rel: "wf pri_rel"
  unfolding pri_rel_def by (intro wf_inv_image wf_lex_prod wf_less_than)

lemma heap_front_mem: "heap_front lt x xs \<in> set (x # xs)"
  by (induction xs arbitrary: x) (simp, force)

lemma pri_top_mem: "vecPriority s \<noteq> [] \<Longrightarrow> pri_top env s \<in> set (vecPriority s)"
  using heap_front_mem [of "pricomparer env" "hd (vecPriority s)" "tl (vecPriority s)"]
  by (simp add: pri_top_def)

lemma distinct_map_remove1:
  "distinct (map f xs) \<Longrightarrow> distinct (map f (remove1 x xs))"
proof (induction xs)
  case Nil
  then show ?case by simp
next
  case (Cons y ys)
  have "f y \<notin> f ` set (remove1 x ys)" if "f y \<notin> f ` set ys"
    using that set_remove1_subset [of x ys] by blast
  with Cons show ?case by auto
qed

lemma set_map_remove1:
  "distinct (map f xs) \<Longrightarrow> x \<in> set xs \<Longrightarrow> set (map f (remove1 x xs)) = set (map f xs) - {f x}"
proof (induction xs)
  case Nil
  then show ?case by simp
next
  case (Cons y ys)
  show ?case
  proof (cases "x = y")
    case True
    with Cons.prems show ?thesis by auto
  next
    case False
    with Cons.prems have "x \<in> set ys" "distinct (map f ys)" "f y \<notin> f ` set ys" by auto
    with Cons.IH False show ?thesis by auto
  qed
qed

lemma pri_popped_sel:
  "vecPriority (pri_popped env s) = remove1 (pri_top env s) (vecPriority s)"
  "waitPriMap (pri_popped env s) = waitPriMap s"
  "asm_pri (pri_popped env s) = asm_pri s"
  by (simp_all add: pri_popped_def)

lemma pri_popped_keys:
  assumes "vecPriority s \<noteq> []" "distinct (pri_keys s)"
  shows "distinct (pri_keys (pri_popped env s))"
    "set (pri_keys (pri_popped env s)) = set (pri_keys s) - {snd (pri_top env s)}"
proof -
  from assms(2) have dv: "distinct (map snd (vecPriority s))"
    and dw: "distinct (map fst (waitPriMap s))"
    and dj: "set (map snd (vecPriority s)) \<inter> set (map fst (waitPriMap s)) = {}"
    by (simp_all add: pri_keys_def)
  note top = pri_top_mem [OF assms(1), of env]
  have sv: "set (map snd (remove1 (pri_top env s) (vecPriority s)))
              = set (map snd (vecPriority s)) - {snd (pri_top env s)}"
    by (rule set_map_remove1 [OF dv top])
  have tv: "snd (pri_top env s) \<in> set (map snd (vecPriority s))" using top by force
  show "distinct (pri_keys (pri_popped env s))"
    unfolding pri_keys_def pri_popped_sel distinct_append sv
    using distinct_map_remove1 [OF dv] dw dj by blast
  show "set (pri_keys (pri_popped env s)) = set (pri_keys s) - {snd (pri_top env s)}"
    unfolding pri_keys_def pri_popped_sel set_append sv
    using dj tv by blast
qed

lemma pri_popped_size:
  assumes "vecPriority s \<noteq> []"
  shows "Suc (length (vecPriority (pri_popped env s))) = length (vecPriority s)"
proof -
  from pri_top_mem [OF assms, of env]
  have "length (remove1 (pri_top env s) (vecPriority s)) = length (vecPriority s) - 1"
    by (simp add: length_remove1)
  moreover from assms have "0 < length (vecPriority s)" by simp
  ultimately show ?thesis by (simp add: pri_popped_sel)
qed

lemma requeue_child_props:
  assumes d: "distinct (pri_keys s)"
  shows "distinct (pri_keys (requeue_child c s))
       \<and> set (pri_keys (requeue_child c s)) = set (pri_keys s)
       \<and> pri_size (requeue_child c s) \<le> pri_size s"
proof (cases "map_of (waitPriMap s) c")
  case None
  with d show ?thesis by (simp add: requeue_child_def)
next
  case (Some pri)
  then have mem: "(c, pri) \<in> set (waitPriMap s)" by (rule map_of_SomeD)
  from d have dv: "distinct (map snd (vecPriority s))"
    and dw: "distinct (map fst (waitPriMap s))"
    and dj: "set (map snd (vecPriority s)) \<inter> set (map fst (waitPriMap s)) = {}"
    by (simp_all add: pri_keys_def)
  from mem have cw: "c \<in> set (map fst (waitPriMap s))" by force
  with dj have cv: "c \<notin> set (map snd (vecPriority s))" by blast
  let ?w = "filter (\<lambda>kv. fst kv \<noteq> c) (waitPriMap s)"
  have sw: "set (map fst ?w) = set (map fst (waitPriMap s)) - {c}" by auto
  have dw': "distinct (map fst ?w)" using dw by (simp add: distinct_map_filter)
  have keys: "pri_keys (requeue_child c s) = (map snd (vecPriority s) @ [c]) @ map fst ?w"
    using Some by (simp add: requeue_child_def pri_keys_def waitPriMap_erase_def)
  have "length ?w < length (waitPriMap s)"
    by (rule length_filter_less [OF mem]) simp
  then have size: "pri_size (requeue_child c s) \<le> pri_size s"
    using Some by (simp add: requeue_child_def pri_size_def waitPriMap_erase_def)
  have "distinct ((map snd (vecPriority s) @ [c]) @ map fst ?w)"
    unfolding distinct_append sw using dv dw' dj cv by auto
  moreover have "set ((map snd (vecPriority s) @ [c]) @ map fst ?w) = set (pri_keys s)"
    unfolding set_append sw pri_keys_def using cw by auto
  ultimately show ?thesis using size by (simp add: keys)
qed

lemma fold_requeue_child_props:
  "distinct (pri_keys s) \<Longrightarrow>
     distinct (pri_keys (fold requeue_child cs s))
     \<and> set (pri_keys (fold requeue_child cs s)) = set (pri_keys s)
     \<and> pri_size (fold requeue_child cs s) \<le> pri_size s"
proof (induction cs arbitrary: s)
  case Nil
  then show ?case by simp
next
  case (Cons c cs)
  from requeue_child_props [OF Cons.prems, of c]
  have 1: "distinct (pri_keys (requeue_child c s))"
    and 2: "set (pri_keys (requeue_child c s)) = set (pri_keys s)"
    and 3: "pri_size (requeue_child c s) \<le> pri_size s" by simp_all
  from Cons.IH [OF 1] 2 3 show ?case by auto
qed

lemma pri_keys_asm [simp]: "pri_keys (s\<lparr>asm_pri := a\<rparr>) = pri_keys s"
  by (simp add: pri_keys_def)

lemma pri_size_asm [simp]: "pri_size (s\<lparr>asm_pri := a\<rparr>) = pri_size s"
  by (simp add: pri_size_def)

lemma pri_size_popped:
  "vecPriority s \<noteq> [] \<Longrightarrow> Suc (pri_size (pri_popped env s)) = pri_size s"
  using pri_popped_size [of s env] by (simp add: pri_size_def pri_popped_sel)

lemma pri_body_step:
  assumes inv: "pri_invariant s"
    and body: "addPriorityTxs_body env mp fPoS blockTime n s = Continue s'"
  shows "pri_invariant s' \<and> (s', s) \<in> pri_rel"
  using body
proof (cases rule: addPriorityTxs_body_ContinueE)
  case unfit
  from inv have d: "distinct (pri_keys s)" by (simp add: pri_invariant_def)
  note k = pri_popped_keys [OF unfit(1) d, of env]
  have "pri_invariant s'"
    using inv k by (auto simp: pri_invariant_def unfit(3) pri_popped_sel)
  moreover have "pri_size s' < pri_size s"
    using pri_size_popped [OF unfit(1), of env] by (simp add: unfit(3))
  ultimately show ?thesis by (simp add: pri_rel_def)
next
  case wait
  from inv have d: "distinct (pri_keys s)" by (simp add: pri_invariant_def)
  note k = pri_popped_keys [OF wait(1) d, of env]
  let ?it = "snd (pri_top env s)"
  let ?p = "pri_popped env s"
  have vs: "vecPriority s' = vecPriority ?p" "asm_pri s' = asm_pri s"
    "waitPriMap s' = waitPriMap_insert (?it, fst (pri_top env s)) (waitPriMap s)"
    by (simp_all add: wait(3) pri_popped_sel)
  have kp: "pri_keys ?p = map snd (vecPriority ?p) @ map fst (waitPriMap s)"
    by (simp add: pri_keys_def pri_popped_sel)
  have ks: "pri_keys s' = map snd (vecPriority ?p) @ map fst (waitPriMap s')"
    by (simp add: pri_keys_def vs)
  have top: "?it \<in> set (pri_keys s)"
    using pri_top_mem [OF wait(1), of env] by (force simp: pri_keys_def)
  have inv': "pri_invariant s'"
  proof (cases "map_of (waitPriMap s) ?it")
    case None
    then have w': "waitPriMap s' = waitPriMap s @ [(?it, fst (pri_top env s))]"
      by (simp add: vs waitPriMap_insert_def)
    have "?it \<notin> set (pri_keys ?p)" using k(2) by simp
    then have "distinct (pri_keys s')" using k(1) by (simp add: ks w' kp)
    moreover have "set (pri_keys s') = set (pri_keys s)"
      using k(2) top by (auto simp: ks w' kp)
    ultimately show ?thesis using inv by (simp add: pri_invariant_def vs)
  next
    case (Some a)
    then have w': "waitPriMap s' = waitPriMap s" by (simp add: vs waitPriMap_insert_def)
    show ?thesis using inv k by (auto simp: pri_invariant_def ks w' kp [symmetric] vs)
  qed
  have "length (waitPriMap s') \<le> Suc (length (waitPriMap s))"
    by (simp add: vs waitPriMap_insert_def)
  with pri_popped_size [OF wait(1), of env]
  have "pri_size s' \<le> pri_size s" "length (vecPriority s') < length (vecPriority s)"
    by (simp_all add: pri_size_def vs)
  then have "(s', s) \<in> pri_rel" by (auto simp: pri_rel_def)
  with inv' show ?thesis by simp
next
  case rejected
  from inv have d: "distinct (pri_keys s)" by (simp add: pri_invariant_def)
  note k = pri_popped_keys [OF rejected(1) d, of env]
  have ib: "inBlock (snd (TestForBlock env mp (asm_pri s) (snd (pri_top env s)))) = inBlock (asm_pri s)"
    by (subst TestForBlock_state) simp
  have "pri_invariant s'"
    using inv k by (auto simp: pri_invariant_def rejected(3) ib)
  moreover have "pri_size s' < pri_size s"
    using pri_size_popped [OF rejected(1), of env] by (simp add: rejected(3))
  ultimately show ?thesis by (simp add: pri_rel_def)
next
  case added
  from inv have d: "distinct (pri_keys s)" by (simp add: pri_invariant_def)
  note k = pri_popped_keys [OF added(1) d, of env]
  let ?it = "snd (pri_top env s)"
  let ?q = "(pri_popped env s)\<lparr>asm_pri := AddToBlock env mp (asm_pri s) ?it\<rparr>"
  have dq: "distinct (pri_keys ?q)" using k(1) by simp
  note f = fold_requeue_child_props [OF dq, of "setEntries_of (GetMemPoolChildren mp ?it)"]
  have asm': "asm_pri s' = AddToBlock env mp (asm_pri s) ?it"
    by (simp add: added(3) asm_pri_requeue)
  have "pri_invariant s'"
    using inv k f by (auto simp: pri_invariant_def asm' AddToBlock_sel added(3) [symmetric])
  moreover have "pri_size s' < pri_size s"
    using pri_size_popped [OF added(1), of env] f by (simp add: added(3) [symmetric])
  ultimately show ?thesis by (simp add: pri_rel_def)
qed

lemma pri_body_noassert:
  assumes inv: "pri_invariant s"
  shows "addPriorityTxs_body env mp fPoS blockTime n s \<noteq> AssertFail"
proof (cases "vecPriority s = [] \<or> blockFinished (asm_pri s)")
  case True
  then show ?thesis by (simp add: addPriorityTxs_body_flat)
next
  case False
  then have "pri_top env s \<in> set (vecPriority s)" by (simp add: pri_top_mem)
  then have "snd (pri_top env s) \<in> set (pri_keys s)" by (force simp: pri_keys_def)
  with inv have "snd (pri_top env s) \<notin> set (inBlock (asm_pri s))"
    by (auto simp: pri_invariant_def)
  with False show ?thesis by (simp add: addPriorityTxs_body_flat)
qed

lemma addPriorityTxs_mono:
  assumes "addPriorityTxs n env mp fPoS blockTime k a = Some r"
  shows "addPriorityTxs (n + j) env mp fPoS blockTime k a = Some r"
proof (cases "min (nBlockMaxSize a) (blockprioritysize env) = 0")
  case True
  with assms show ?thesis by (simp add: addPriorityTxs_def)
next
  case False
  let ?body = "addPriorityTxs_body env mp fPoS blockTime (min (nBlockMaxSize a) (blockprioritysize env))"
  let ?s = "\<lparr>vecPriority = map (\<lambda>m. (GetPriority mp m (nHeight (a\<lparr>fNeedSizeAccounting := True\<rparr>)), m)) (mapTx mp),
             waitPriMap = [], nClock = k, asm_pri = a\<lparr>fNeedSizeAccounting := True\<rparr>\<rparr>"
  note run = assms [unfolded addPriorityTxs_def Let_def if_not_P [OF False]]
  from run obtain x where x: "iterate n ?body ?s = Some x"
    by (cases "iterate n ?body ?s") simp_all
  from iterate_mono [OF x] have "iterate (n + j) ?body ?s = Some x" .
  with x run show ?thesis
    unfolding addPriorityTxs_def Let_def if_not_P [OF False] by simp
qed

lemma addPriorityTxs_terminates:
  assumes dist: "distinct (mapTx mp)" and empty: "inBlock a = []"
  shows "\<exists>n k' a'. addPriorityTxs n env mp fPoS blockTime k a = Some (Inr (k', a'))"
proof (cases "min (nBlockMaxSize a) (blockprioritysize env) = 0")
  case True
  then show ?thesis by (simp add: addPriorityTxs_def)
next
  case False
  let ?body = "addPriorityTxs_body env mp fPoS blockTime (min (nBlockMaxSize a) (blockprioritysize env))"
  let ?s = "\<lparr>vecPriority = map (\<lambda>m. (GetPriority mp m (nHeight (a\<lparr>fNeedSizeAccounting := True\<rparr>)), m)) (mapTx mp),
             waitPriMap = [], nClock = k, asm_pri = a\<lparr>fNeedSizeAccounting := True\<rparr>\<rparr>"
  have "pri_invariant ?s"
    using dist empty by (simp add: pri_invariant_def pri_keys_def comp_def)
  then have "\<exists>n r. iterate n ?body ?s = Some (Inr r)"
    by (rule iterate_terminates [OF wf_pri_rel, where I = pri_invariant])
       (rule pri_body_step, assumption+, rule pri_body_noassert, assumption)
  then obtain n r where "iterate n ?body ?s = Some (Inr r)" by blast
  then have "addPriorityTxs n env mp fPoS blockTime k a
      = Some (Inr (nClock r, (asm_pri r)\<lparr>fNeedSizeAccounting := fNeedSizeAccounting a\<rparr>))"
    unfolding addPriorityTxs_def Let_def if_not_P [OF False] by simp
  then show ?thesis by blast
qed

lemma wf_pkg_rel: "wf (pkg_rel mp)"
  unfolding pkg_rel_def by (intro wf_inv_image wf_lex_prod wf_less_than)

lemma keys_UpdatePackagesForAdded:
  assumes "e \<in> iter ` set (UpdatePackagesForAdded mp A mm)"
  shows "e \<in> iter ` set mm
       \<or> (e \<notin> set A \<and> (\<exists>a \<in> set A. e \<in> set (CalculateDescendants mp a)))"
proof (rule ccontr)
  assume neg: "\<not> ?thesis"
  then have none: "mm_find e mm = None" by (simp add: mm_find_None_iff)
  from neg have "e \<in> set A \<or> filter (\<lambda>a. e \<in> set (CalculateDescendants mp a)) A = []"
    by (auto simp: filter_empty_conv)
  then have "mm_find e (UpdatePackagesForAdded mp A mm) = None"
    using none by (simp add: mm_find_UpdatePackagesForAdded)
  with assms show False by (simp add: mm_find_None_iff)
qed

lemma keys_fold_mm_erase:
  "iter ` set (fold mm_erase M mm) = iter ` set mm - set M"
proof -
  have "e \<in> iter ` set (fold mm_erase M mm) \<longleftrightarrow> e \<in> iter ` set mm - set M" for e
  proof -
    have "e \<notin> iter ` set (fold mm_erase M mm) \<longleftrightarrow> (e \<in> set M \<or> e \<notin> iter ` set mm)"
      unfolding mm_find_None_iff [symmetric] mm_find_fold_erase by simp
    then show ?thesis by blast
  qed
  then show ?thesis by blast
qed

lemma ancestor_closed_AddPackage:
  assumes wf: "ancestry_wf mp" and cl: "ancestor_closed mp a"
  shows "ancestor_closed mp (AddPackage env mp (SortForBlock mp (package_of mp a it)) a)"
proof -
  have inB: "set (inBlock (AddPackage env mp (SortForBlock mp (package_of mp a it)) a))
               = set (inBlock a) \<union> set (package_of mp a it)"
    by (auto simp: AddPackage_sel set_fold_set_insert SortForBlock_props)
  have tr: "set (CalculateMemPoolAncestors mp d) \<subseteq> set (CalculateMemPoolAncestors mp it)"
    if "d \<in> set (CalculateMemPoolAncestors mp it)" for d
    using wf that unfolding ancestry_wf_def by blast
  show ?thesis
    unfolding ancestor_closed_def inB set_package_of
    using cl tr unfolding ancestor_closed_def by blast
qed

lemma ancestor_closed_AddToBlock:
  assumes wf: "ancestry_wf mp" and cl: "ancestor_closed mp a"
    and indep: "\<not> isStillDependent mp a it"
  shows "ancestor_closed mp (AddToBlock env mp a it)"
proof -
  from indep have par: "set (GetMemPoolParents mp it) \<subseteq> set (inBlock a)"
    by (auto simp: isStillDependent_def list_ex_iff setEntries_of_def)
  have "set (CalculateMemPoolAncestors mp it)
          \<subseteq> set (GetMemPoolParents mp it)
            \<union> (\<Union>p \<in> set (GetMemPoolParents mp it). set (CalculateMemPoolAncestors mp p))"
    using wf unfolding ancestry_wf_def by blast
  with par cl have "set (CalculateMemPoolAncestors mp it) \<subseteq> set (inBlock a)"
    unfolding ancestor_closed_def by blast
  with cl show ?thesis
    unfolding ancestor_closed_def AddToBlock_sel by auto
qed

lemma candidate_noassert:
  "it \<notin> set (inBlock (asm s)) \<Longrightarrow> addPackageTxs_candidate env mp s it modit \<noteq> AssertFail"
  by (simp add: candidate_result)

lemma pkg_candidate_step:
  assumes wf: "ancestry_wf mp" and dwf: "descendants_wf mp" and pw: "pool_wf mp"
    and inv: "pkg_invariant mp s"
    and itU: "it \<in> set (mapTx mp)"
    and modit: "modit = None \<or> (\<exists>m. modit = Some m \<and> m \<in> set (mapModifiedTx s) \<and> iter m = it)"
    and cand: "addPackageTxs_candidate env mp s it modit = Continue s'"
  shows "pkg_invariant mp s' \<and> mi s' = mi s
       \<and> (card (set (mapTx mp) - set (inBlock (asm s')))
             < card (set (mapTx mp) - set (inBlock (asm s)))
          \<or> inBlock (asm s') = inBlock (asm s)
             \<and> (if modit = None then mapModifiedTx s' = mapModifiedTx s
                 else length (mapModifiedTx s') < length (mapModifiedTx s)))"
proof -
  let ?a = "asm s"
  let ?pkg = "package_of mp ?a it"
  let ?M = "SortForBlock mp ?pkg"
  let ?U = "set (mapTx mp)"
  from inv have cl: "ancestor_closed mp ?a"
    and kd: "iter ` set (mapModifiedTx s) \<inter> set (inBlock ?a) = {}"
    and miU: "set (mi s) \<subseteq> ?U" and kU: "iter ` set (mapModifiedTx s) \<subseteq> ?U"
    by (simp_all add: pkg_invariant_def)
  from cand have notin: "it \<notin> set (inBlock ?a)"
    by (cases "it \<in> set (inBlock ?a)") (simp_all add: candidate_result)
  have nofloor: "\<not> package_fees mp it modit < minRelayTxFee_GetFee env (package_size mp it modit)"
    using cand notin by (auto simp: candidate_result split: if_splits)
  show ?thesis
  proof (cases "fst (TestPackage env ?a (package_size mp it modit) (package_sigops mp it modit))
                \<and> fst (TestPackageTransactions env mp ?a ?pkg)")
    case False
    with cand notin nofloor have s': "s' = package_failed s it (modit \<noteq> None)"
      by (auto simp: candidate_result split: if_splits)
    show ?thesis
    proof (cases "modit = None")
      case True
      with s' inv show ?thesis by (simp add: package_failed_def)
    next
      case False
      with modit obtain m where m: "m \<in> set (mapModifiedTx s)" "iter m = it" by blast
      have sel: "asm s' = ?a" "mi s' = mi s" "mapModifiedTx s' = mm_erase it (mapModifiedTx s)"
        using False by (simp_all add: s' package_failed_def)
      have sub: "set (mm_erase it (mapModifiedTx s)) \<subseteq> set (mapModifiedTx s)"
        by (auto simp: mm_erase_def)
      have "length (mm_erase it (mapModifiedTx s)) < length (mapModifiedTx s)"
        unfolding mm_erase_def by (rule length_filter_less [OF m(1)]) (simp add: m(2))
      moreover have "pkg_invariant mp s'"
        unfolding pkg_invariant_def sel using cl kd miU kU sub by blast
      ultimately show ?thesis using False by (auto simp: sel)
    qed
  next
    case True
    with cand notin nofloor
    have s': "s' = s\<lparr>asm := AddPackage env mp ?M ?a,
                     mapModifiedTx := UpdatePackagesForAdded mp ?pkg (fold mm_erase ?M (mapModifiedTx s))\<rparr>"
      by (simp add: candidate_result)
    have sel: "asm s' = AddPackage env mp ?M ?a" "mi s' = mi s"
      "mapModifiedTx s' = UpdatePackagesForAdded mp ?pkg (fold mm_erase ?M (mapModifiedTx s))"
      by (simp_all add: s')
    have inB: "set (inBlock (AddPackage env mp ?M ?a)) = set (inBlock ?a) \<union> set ?pkg"
      by (auto simp: AddPackage_sel set_fold_set_insert SortForBlock_props)
    have disj: "set (inBlock ?a) \<inter> set ?pkg = {}" using notin by (auto simp: set_package_of)
    have itp: "it \<in> set ?pkg" by (simp add: set_package_of)
    have cl': "ancestor_closed mp (AddPackage env mp ?M ?a)"
      by (rule ancestor_closed_AddPackage [OF wf cl])
    have keys: "e \<in> set (mapTx mp) \<and> e \<notin> set (inBlock ?a) \<and> e \<notin> set ?pkg"
      if e: "e \<in> iter ` set (UpdatePackagesForAdded mp ?pkg (fold mm_erase ?M (mapModifiedTx s)))"
      for e
    proof -
      from keys_UpdatePackagesForAdded [OF e]
      consider "e \<in> iter ` set (fold mm_erase ?M (mapModifiedTx s))"
        | a where "e \<notin> set ?pkg" "a \<in> set ?pkg" "e \<in> set (CalculateDescendants mp a)"
        by blast
      then show ?thesis
      proof cases
        case 1
        then have "e \<in> iter ` set (mapModifiedTx s)" "e \<notin> set ?pkg"
          by (simp_all add: keys_fold_mm_erase SortForBlock_props)
        with kd kU show ?thesis by blast
      next
        case 2
        then have ne: "e \<noteq> a" by blast
        with 2 pw have "e \<in> set (mapTx mp)" unfolding pool_wf_def by blast
        moreover have "e \<notin> set (inBlock ?a)"
        proof
          assume "e \<in> set (inBlock ?a)"
          with cl have "set (CalculateMemPoolAncestors mp e) \<subseteq> set (inBlock ?a)"
            unfolding ancestor_closed_def by blast
          moreover from 2 ne dwf have "a \<in> set (CalculateMemPoolAncestors mp e)"
            unfolding descendants_wf_def by blast
          ultimately show False using 2(2) disj by blast
        qed
        ultimately show ?thesis using 2(1) by blast
      qed
    qed
    have inv': "pkg_invariant mp s'"
      unfolding pkg_invariant_def sel inB using cl' miU keys by blast
    have "?U - (set (inBlock ?a) \<union> set ?pkg) \<subset> ?U - set (inBlock ?a)"
      using itU notin itp by blast
    then have "card (?U - (set (inBlock ?a) \<union> set ?pkg)) < card (?U - set (inBlock ?a))"
      by (intro psubset_card_mono) simp_all
    with inv' show ?thesis by (simp add: sel inB)
  qed
qed

lemma pkg_invariant_mi:
  "pkg_invariant mp s \<Longrightarrow> set r \<subseteq> set (mi s) \<Longrightarrow> pkg_invariant mp (s\<lparr>mi := r\<rparr>)"
  by (auto simp: pkg_invariant_def)

lemma pkg_body_step:
  assumes wf: "ancestry_wf mp" and dwf: "descendants_wf mp" and pw: "pool_wf mp"
    and inv: "pkg_invariant mp s"
    and body: "addPackageTxs_body env mp s = Continue s'"
  shows "pkg_invariant mp s' \<and> (s', s) \<in> pkg_rel mp"
  using body
proof (cases rule: addPackageTxs_body_cases)
  case finished
  then show ?thesis by simp
next
  case (skip it rest)
  have "pkg_invariant mp (s\<lparr>mi := rest\<rparr>)"
    by (rule pkg_invariant_mi [OF inv]) (auto simp: skip(1))
  then show ?thesis using skip by (simp add: pkg_rel_def)
next
  case (fromMapTx it rest)
  have inv1: "pkg_invariant mp (s\<lparr>mi := rest\<rparr>)"
    by (rule pkg_invariant_mi [OF inv]) (auto simp: fromMapTx(1))
  from inv fromMapTx(1) have itU: "it \<in> set (mapTx mp)" by (auto simp: pkg_invariant_def)
  from pkg_candidate_step [OF wf dwf pw inv1 itU _ fromMapTx(3) [symmetric]]
  have "pkg_invariant mp s'" and "mi s' = rest"
    and "card (set (mapTx mp) - set (inBlock (asm s')))
             < card (set (mapTx mp) - set (inBlock (asm s)))
          \<or> inBlock (asm s') = inBlock (asm s) \<and> mapModifiedTx s' = mapModifiedTx s"
    by simp_all
  then show ?thesis using fromMapTx(1) by (auto simp: pkg_rel_def)
next
  case (fromModified modit)
  from mm_begin_mem [OF fromModified(1)] have mem: "modit \<in> set (mapModifiedTx s)" .
  with inv have itU: "iter modit \<in> set (mapTx mp)" by (auto simp: pkg_invariant_def)
  have m: "Some modit = None \<or> (\<exists>m. Some modit = Some m \<and> m \<in> set (mapModifiedTx s)
              \<and> iter m = iter modit)"
    using mem by simp
  from pkg_candidate_step [OF wf dwf pw inv itU m fromModified(2) [symmetric]]
  have "pkg_invariant mp s'" and "mi s' = mi s"
    and "card (set (mapTx mp) - set (inBlock (asm s')))
             < card (set (mapTx mp) - set (inBlock (asm s)))
          \<or> inBlock (asm s') = inBlock (asm s)
             \<and> length (mapModifiedTx s') < length (mapModifiedTx s)"
    by simp_all
  then show ?thesis by (auto simp: pkg_rel_def)
qed

lemma pkg_body_noassert:
  assumes inv: "pkg_invariant mp s"
  shows "addPackageTxs_body env mp s \<noteq> AssertFail"
proof
  assume "addPackageTxs_body env mp s = AssertFail"
  then show False
  proof (cases rule: addPackageTxs_body_cases)
    case (fromMapTx it rest)
    then have "it \<notin> set (inBlock (asm (s\<lparr>mi := rest\<rparr>)))" by (simp add: SkipMapTxEntry_def)
    from candidate_noassert [OF this] fromMapTx(3) show False by metis
  next
    case (fromModified modit)
    from mm_begin_mem [OF fromModified(1)] inv
    have "iter modit \<notin> set (inBlock (asm s))" by (auto simp: pkg_invariant_def)
    from candidate_noassert [OF this] fromModified(2) show False by metis
  qed simp_all
qed

lemma addPackageTxs_mono:
  "addPackageTxs n env mp a = Some r \<Longrightarrow> addPackageTxs (n + j) env mp a = Some r"
  unfolding addPackageTxs_def by (rule iterate_mono)

lemma pkg_invariant_start:
  assumes dwf: "descendants_wf mp" and pw: "pool_wf mp" and cl: "ancestor_closed mp a"
  shows "pkg_invariant mp \<lparr>mi = ancestor_score mp,
           mapModifiedTx = UpdatePackagesForAdded mp (inBlock a) [], failedTx = [], asm = a\<rparr>"
proof -
  have keys: "e \<in> set (mapTx mp) \<and> e \<notin> set (inBlock a)"
    if e: "e \<in> iter ` set (UpdatePackagesForAdded mp (inBlock a) [])" for e
  proof -
    from keys_UpdatePackagesForAdded [OF e]
    obtain x where x: "e \<notin> set (inBlock a)" "x \<in> set (inBlock a)"
      "e \<in> set (CalculateDescendants mp x)" by auto
    then have "e \<noteq> x" by blast
    with x pw have "e \<in> set (mapTx mp)" unfolding pool_wf_def by blast
    with x(1) show ?thesis by simp
  qed
  from pw have "set (ancestor_score mp) \<subseteq> set (mapTx mp)" by (simp add: pool_wf_def)
  with cl keys show ?thesis unfolding pkg_invariant_def by auto
qed

lemma addPackageTxs_terminates:
  assumes wf: "ancestry_wf mp" and dwf: "descendants_wf mp" and pw: "pool_wf mp"
    and cl: "ancestor_closed mp a"
  shows "\<exists>n a'. addPackageTxs n env mp a = Some (Inr a')"
  unfolding addPackageTxs_def
proof (rule iterate_terminates [OF wf_pkg_rel, where I = "pkg_invariant mp" and mp1 = mp])
  show "pkg_invariant mp \<lparr>mi = ancestor_score mp,
           mapModifiedTx = UpdatePackagesForAdded mp (inBlock a) [], failedTx = [], asm = a\<rparr>"
    by (rule pkg_invariant_start [OF dwf pw cl])
  show "pkg_invariant mp s' \<and> (s', s) \<in> pkg_rel mp"
    if "pkg_invariant mp s" "addPackageTxs_body env mp s = Continue s'" for s s'
    using that by (rule pkg_body_step [OF wf dwf pw])
  show "addPackageTxs_body env mp s \<noteq> AssertFail" if "pkg_invariant mp s" for s
    using that by (rule pkg_body_noassert)
qed

lemma ancestor_closed_addPriorityTxs:
  assumes wf: "ancestry_wf mp"
    and run: "addPriorityTxs fuel env mp fPoS blockTime k a = Some (Inr (k', a'))"
    and cl: "ancestor_closed mp a"
  shows "ancestor_closed mp a'"
proof (rule addPriorityTxs_preserves_cond [OF run, where P = "ancestor_closed mp"])
  show "ancestor_closed mp a" by (rule cl)
  show "ancestor_closed mp (a\<lparr>fNeedSizeAccounting := True\<rparr>)"
    using cl by (simp add: ancestor_closed_def)
  show "ancestor_closed mp (AddToBlock env mp b it) \<and> fNeedSizeAccounting (AddToBlock env mp b it)"
    if "ancestor_closed mp b" "fNeedSizeAccounting b" "it \<notin> set (inBlock b)"
      "\<not> isStillDependent mp b it" "fst (TestForBlock env mp b it)" for b it
    using ancestor_closed_AddToBlock [OF wf that(1,4)] that(2) by (simp add: AddToBlock_sel)
  show "ancestor_closed mp (b\<lparr>lastFewTxs := l, blockFinished := f\<rparr>)"
    if "ancestor_closed mp b" for b l f
    using that by (simp add: ancestor_closed_def)
  show "ancestor_closed mp (b\<lparr>fNeedSizeAccounting := fNeedSizeAccounting a\<rparr>)"
    if "ancestor_closed mp b" "fNeedSizeAccounting b" for b
    using that by (simp add: ancestor_closed_def)
qed

lemma CreateNewBlock_start_inBlock:
  "inBlock (CreateNewBlock_start env pindexPrev fWit (resetBlock a0)) = []"
  by (simp add: CreateNewBlock_start_def resetBlock_def Let_def)

lemma finish_header:
  assumes "CreateNewBlock_finish env pindexPrev script fPoS pStakeReward k a = (t, reward)"
  shows "nNonce (block t) = 0"
    "nBits (block t) = GetNextWorkRequired env pindexPrev fPoS"
    "hashPrevBlock (block t) = GetBlockHash pindexPrev"
  using assms
  by (auto simp: CreateNewBlock_finish_def Let_def UpdateTime_def)

lemma CreateNewBlock_null:
  assumes "fPoS \<and> pStakeReward = None"
  shows "CreateNewBlock fuel env mp pindexPrev a0 script fPoS pStakeReward fWit
           = Some (Inr (None, pStakeReward, resetBlock a0))"
  using assms by (simp add: CreateNewBlock_def Let_def)

lemma CreateNewBlock_bad_alloc:
  assumes "\<not> (fPoS \<and> pStakeReward = None)" "\<not> new_CBlockTemplate_ok env"
  shows "CreateNewBlock fuel env mp pindexPrev a0 script fPoS pStakeReward fWit
           = Some (Inl BadAlloc)"
  unfolding CreateNewBlock_def Let_def if_not_P [OF assms(1)]
  using assms(2) by (simp add: new_CBlockTemplate_def)

lemma CreateNewBlock_null_only:
  assumes "CreateNewBlock fuel env mp pindexPrev a0 script fPoS pStakeReward fWit
             = Some (Inr (None, r, a))"
  shows "fPoS \<and> pStakeReward = None"
proof (rule ccontr)
  assume 1: "\<not> (fPoS \<and> pStakeReward = None)"
  note run = assms [unfolded CreateNewBlock_def Let_def if_not_P [OF 1]]
  then show False
    by (simp add: new_CBlockTemplate_def split: if_splits option.splits sum.splits prod.splits)
qed

lemma CreateNewBlock_template:
  assumes wf: "ancestry_wf mp" and dwf: "descendants_wf mp" and pw: "pool_wf mp"
    and pos: "\<not> (fPoS \<and> pStakeReward = None)" and new: "new_CBlockTemplate_ok env"
  shows "\<exists>n t r a. (\<forall>fuel. n \<le> fuel \<longrightarrow>
             CreateNewBlock fuel env mp pindexPrev a0 script fPoS pStakeReward fWit
               = Some (Inr (Some t, r, a)))
           \<and> nNonce (block t) = 0
           \<and> nBits (block t) = GetNextWorkRequired env pindexPrev fPoS
           \<and> hashPrevBlock (block t) = GetBlockHash pindexPrev
           \<and> vtx (block t) \<noteq> []"
proof -
  define a1 where "a1 = CreateNewBlock_start env pindexPrev fWit (resetBlock a0)"
  define bt where "bt = nTime (vtx (block (pblocktemplate a1)) ! 0)"
  from pw have dist: "distinct (mapTx mp)" by (simp add: pool_wf_def)
  have empty: "inBlock a1 = []" by (simp add: a1_def CreateNewBlock_start_inBlock)
  from addPriorityTxs_terminates [OF dist empty]
  obtain n1 k a2 where pri: "addPriorityTxs n1 env mp fPoS bt 1 a1 = Some (Inr (k, a2))"
    by blast
  have "ancestor_closed mp a1" by (simp add: ancestor_closed_def empty)
  with pri have cl2: "ancestor_closed mp a2" by (rule ancestor_closed_addPriorityTxs [OF wf])
  from addPackageTxs_terminates [OF wf dwf pw cl2]
  obtain n2 a3 where pkg: "addPackageTxs n2 env mp a2 = Some (Inr a3)" by blast
  obtain t r where fin: "CreateNewBlock_finish env pindexPrev script fPoS pStakeReward k a3 = (t, r)"
    by (cases "CreateNewBlock_finish env pindexPrev script fPoS pStakeReward k a3")
  have run: "CreateNewBlock fuel env mp pindexPrev a0 script fPoS pStakeReward fWit
               = Some (Inr (Some t, r, a3\<lparr>pblocktemplate := t\<rparr>))"
    if le: "max n1 n2 \<le> fuel" for fuel
  proof -
    from le have f1: "fuel = n1 + (fuel - n1)" and f2: "fuel = n2 + (fuel - n2)" by simp_all
    have pri': "addPriorityTxs fuel env mp fPoS bt 1 a1 = Some (Inr (k, a2))"
      by (subst f1) (rule addPriorityTxs_mono [OF pri])
    have pkg': "addPackageTxs fuel env mp a2 = Some (Inr a3)"
      by (subst f2) (rule addPackageTxs_mono [OF pkg])
    show ?thesis
      unfolding CreateNewBlock_def Let_def if_not_P [OF pos] a1_def [symmetric] bt_def [symmetric]
      using new by (simp add: new_CBlockTemplate_def pri' [unfolded One_nat_def] pkg' fin)
  qed
  have pri_m: "addPriorityTxs (max n1 n2) env mp fPoS bt 1 a1 = Some (Inr (k, a2))"
    using addPriorityTxs_mono [OF pri, of "max n1 n2 - n1"] by simp
  have pkg_m: "addPackageTxs (max n1 n2) env mp a2 = Some (Inr a3)"
    using addPackageTxs_mono [OF pkg, of "max n1 n2 - n2"] by simp
  have "vectors_aligned a3"
  proof (rule selection_preserves [OF pri_m pkg_m, where P = vectors_aligned])
    show "vectors_aligned a1" unfolding a1_def by (rule vectors_aligned_start)
  qed (simp_all add: vectors_aligned_AddToBlock, simp_all add: vectors_aligned_def)
  then have "vtx (block (pblocktemplate a3)) \<noteq> []" by (auto simp: vectors_aligned_def)
  with finish_lengths(1) [OF fin] have ne: "vtx (block t) \<noteq> []" by auto
  from run finish_header [OF fin] ne show ?thesis by blast
qed

lemma ex_pool_wf: "pool_wf ex_mp"
  by (auto simp: pool_wf_def ex_mp_sel split: if_splits)

text \<open>
  What \<open>CreateNewBlock\<close> returns. It returns \<open>NULL\<close> exactly when \<open>fProofOfStake\<close> is set
  and \<open>pStakeReward\<close> is null, and then before either loop, whatever the fuel. Otherwise,
  when the allocation fails the call ends with the exception; and when it succeeds both
  loops end without a failed \<open>assert\<close>, and with enough fuel the call returns a template
  whose header has \<open>nNonce = 0\<close>, the difficulty bits of \<open>GetNextWorkRequired\<close> and the
  hash of the tip, and whose transactions start with the coinbase. The mempool's
  ancestor and descendant sets are consistent and its indices range over the same
  entries.
\<close>

lemma CreateNewBlock_returns:
  assumes wf: "ancestry_wf mp" and dwf: "descendants_wf mp" and pw: "pool_wf mp"
  shows "(\<exists>fuel r a. CreateNewBlock fuel env mp pindexPrev a0 script fPoS pStakeReward fWit
                         = Some (Inr (None, r, a)))
            \<longleftrightarrow> fPoS \<and> pStakeReward = None"
    and "fPoS \<and> pStakeReward = None \<Longrightarrow>
           CreateNewBlock fuel env mp pindexPrev a0 script fPoS pStakeReward fWit
             = Some (Inr (None, pStakeReward, resetBlock a0))"
    and "\<not> (fPoS \<and> pStakeReward = None) \<Longrightarrow> \<not> new_CBlockTemplate_ok env \<Longrightarrow>
           CreateNewBlock fuel env mp pindexPrev a0 script fPoS pStakeReward fWit
             = Some (Inl BadAlloc)"
    and "\<not> (fPoS \<and> pStakeReward = None) \<Longrightarrow> new_CBlockTemplate_ok env \<Longrightarrow>
           \<exists>n t r a. (\<forall>fuel. n \<le> fuel \<longrightarrow>
                 CreateNewBlock fuel env mp pindexPrev a0 script fPoS pStakeReward fWit
                   = Some (Inr (Some t, r, a)))
               \<and> nNonce (block t) = 0
               \<and> nBits (block t) = GetNextWorkRequired env pindexPrev fPoS
               \<and> hashPrevBlock (block t) = GetBlockHash pindexPrev
               \<and> vtx (block t) \<noteq> []"
proof -
  show "(\<exists>fuel r a. CreateNewBlock fuel env mp pindexPrev a0 script fPoS pStakeReward fWit
                         = Some (Inr (None, r, a)))
            \<longleftrightarrow> fPoS \<and> pStakeReward = None"
    using CreateNewBlock_null_only [of _ env mp pindexPrev a0 script fPoS pStakeReward fWit]
      CreateNewBlock_null [of fPoS pStakeReward _ env mp pindexPrev a0 script fWit]
    by blast
  show "fPoS \<and> pStakeReward = None \<Longrightarrow>
           CreateNewBlock fuel env mp pindexPrev a0 script fPoS pStakeReward fWit
             = Some (Inr (None, pStakeReward, resetBlock a0))"
    by (rule CreateNewBlock_null)
  show "\<not> (fPoS \<and> pStakeReward = None) \<Longrightarrow> \<not> new_CBlockTemplate_ok env \<Longrightarrow>
           CreateNewBlock fuel env mp pindexPrev a0 script fPoS pStakeReward fWit
             = Some (Inl BadAlloc)"
    by (rule CreateNewBlock_bad_alloc)
  show "\<not> (fPoS \<and> pStakeReward = None) \<Longrightarrow> new_CBlockTemplate_ok env \<Longrightarrow>
           \<exists>n t r a. (\<forall>fuel. n \<le> fuel \<longrightarrow>
                 CreateNewBlock fuel env mp pindexPrev a0 script fPoS pStakeReward fWit
                   = Some (Inr (Some t, r, a)))
               \<and> nNonce (block t) = 0
               \<and> nBits (block t) = GetNextWorkRequired env pindexPrev fPoS
               \<and> hashPrevBlock (block t) = GetBlockHash pindexPrev
               \<and> vtx (block t) \<noteq> []"
    by (rule CreateNewBlock_template [OF wf dwf pw])
qed

lemma ex_CreateNewBlock_returns:
  "\<exists>n t r a. (\<forall>fuel. n \<le> fuel \<longrightarrow>
      CreateNewBlock fuel ex_env ex_mp ex_tip ex_asm [] False None True = Some (Inr (Some t, r, a)))
    \<and> nNonce (block t) = 0 \<and> vtx (block t) \<noteq> []"
  using CreateNewBlock_returns(4) [OF ex_ancestry_wf ex_descendants_wf ex_pool_wf,
      of False None ex_env ex_tip ex_asm "[]" True] ex_env_sel(5)
  by blast

text \<open>
  Claim C7 fails in the code where the allocation fails. The guard after
  \<open>new CBlockTemplate()\<close> returns \<open>NULL\<close> for a null pointer, but the new-expression
  throws instead of yielding one: over the pool of three transactions, for a
  proof-of-work template and an allocation that fails, the call ends with the exception
  whatever the fuel, and returns neither \<open>NULL\<close> nor a template.
\<close>

theorem CreateNewBlock_allocation_failure:
  "\<not> new_CBlockTemplate_ok (ex_env\<lparr>new_CBlockTemplate_ok := False\<rparr>)
   \<and> (\<forall>fuel. CreateNewBlock fuel (ex_env\<lparr>new_CBlockTemplate_ok := False\<rparr>) ex_mp ex_tip
                ex_asm [] False None True = Some (Inl BadAlloc))
   \<and> (\<nexists>fuel r a. CreateNewBlock fuel (ex_env\<lparr>new_CBlockTemplate_ok := False\<rparr>) ex_mp ex_tip
                ex_asm [] False None True = Some (Inr (None, r, a)))
   \<and> new_CBlockTemplate (ex_env\<lparr>new_CBlockTemplate_ok := False\<rparr>) = Inl BadAlloc"
proof -
  have bad: "CreateNewBlock fuel (ex_env\<lparr>new_CBlockTemplate_ok := False\<rparr>) ex_mp ex_tip
                ex_asm [] False None True = Some (Inl BadAlloc)" for fuel
    by (rule CreateNewBlock_bad_alloc) simp_all
  then have "\<nexists>fuel r a. CreateNewBlock fuel (ex_env\<lparr>new_CBlockTemplate_ok := False\<rparr>) ex_mp ex_tip
                ex_asm [] False None True = Some (Inr (None, r, a))"
    by simp
  with bad show ?thesis by (simp add: new_CBlockTemplate_def)
qed

end
